theory Spec2Isabelle
  imports Main
begin

section \<open>JavaScript string primitives used by the analytics service\<close>

text \<open>
  \<open>String.prototype.split(sep)\<close> with a one-character separator: the string is cut at
  every occurrence of the separator, so a string with \<open>n\<close> separators yields \<open>n + 1\<close>
  parts, and the empty string yields the single empty part.
\<close>

fun split_on :: "char \<Rightarrow> string \<Rightarrow> string list" where
  "split_on c [] = [[]]"
| "split_on c (x # xs) =
     (if x = c then [] # split_on c xs
      else (case split_on c xs of
              [] \<Rightarrow> [[x]]
            | p # ps \<Rightarrow> (x # p) # ps))"

text \<open>\<open>Array.prototype.join(sep)\<close>.\<close>

fun join :: "string \<Rightarrow> string list \<Rightarrow> string" where
  "join sep [] = []"
| "join sep [p] = p"
| "join sep (p # q # ps) = p @ sep @ join sep (q # ps)"

fun startsWith :: "string \<Rightarrow> string \<Rightarrow> bool" where
  "startsWith s [] = True"
| "startsWith [] (y # ys) = False"
| "startsWith (x # xs) (y # ys) = (x = y \<and> startsWith xs ys)"

text \<open>\<open>String.prototype.includes(sub)\<close>: \<open>sub\<close> occurs somewhere in the string.\<close>

fun str_includes :: "string \<Rightarrow> string \<Rightarrow> bool" where
  "str_includes [] sub = (sub = [])"
| "str_includes (x # xs) sub = (startsWith (x # xs) sub \<or> str_includes xs sub)"

section \<open>Event anonymisation (AnalyticsService.js)\<close>

text \<open>
  \<open>_anonymizeIp(ip)\<close>. The argument is a string or missing (\<open>undefined\<close>/\<open>null\<close>, here
  \<open>None\<close>); \<open>!ip\<close> holds for a missing value and for the empty string.
\<close>

definition anonymizeIp :: "string option \<Rightarrow> string" where
  "anonymizeIp ip =
     (case ip of
        None \<Rightarrow> ''unknown''
      | Some s \<Rightarrow>
          if s = [] then ''unknown''
          else
            let ipv4Parts = split_on CHR ''.'' s in
            if length ipv4Parts = 4
            then ipv4Parts ! 0 @ ''.'' @ ipv4Parts ! 1 @ ''.'' @ ipv4Parts ! 2 @ ''.xxx''
            else if str_includes s '':'' \<and> 4 \<le> length (split_on CHR '':'' s)
            then join '':'' (take 4 (split_on CHR '':'' s)) @ '':xxxx:xxxx:xxxx:xxxx''
            else ''unknown'')"

text \<open>
  \<open>_parseUserAgent(userAgent)\<close>: ordered substring checks; the first branch that matches
  decides the browser. Only the browser half and the OS half of the returned object are
  modelled, as two functions.
\<close>

definition parseBrowser :: "string \<Rightarrow> string" where
  "parseBrowser userAgent =
     (if userAgent = [] then ''Unknown''
      else if str_includes userAgent ''Edg/'' then ''Edge''
      else if str_includes userAgent ''Chrome/'' then ''Chrome''
      else if str_includes userAgent ''Firefox/'' then ''Firefox''
      else if str_includes userAgent ''Safari/'' \<and> \<not> str_includes userAgent ''Chrome'' then ''Safari''
      else if str_includes userAgent ''Opera/'' \<or> str_includes userAgent ''OPR/'' then ''Opera''
      else ''Unknown'')"

definition parseOs :: "string \<Rightarrow> string" where
  "parseOs userAgent =
     (if userAgent = [] then ''Unknown''
      else if str_includes userAgent ''Windows NT'' then ''Windows''
      else if str_includes userAgent ''Mac OS X'' then ''macOS''
      else if str_includes userAgent ''Linux'' then ''Linux''
      else if str_includes userAgent ''Android'' then ''Android''
      else if str_includes userAgent ''iPhone'' \<or> str_includes userAgent ''iPad'' then ''iOS''
      else ''Unknown'')"

definition parseUserAgent :: "string \<Rightarrow> string \<times> string" where
  "parseUserAgent userAgent = (parseBrowser userAgent, parseOs userAgent)"

text \<open>
  The two shapes of address the masking distinguishes: a string of exactly four
  dot-separated segments, and a colon-containing string of at least four groups.
\<close>

definition dotted4 :: "string option \<Rightarrow> bool" where
  "dotted4 ip = (case ip of None \<Rightarrow> False | Some s \<Rightarrow> length (split_on CHR ''.'' s) = 4)"

definition colon4 :: "string option \<Rightarrow> bool" where
  "colon4 ip =
     (case ip of None \<Rightarrow> False
      | Some s \<Rightarrow> str_includes s '':'' \<and> 4 \<le> length (split_on CHR '':'' s))"

section \<open>Fixed-window rate limiter (middleware/rateLimiter.js)\<close>

text \<open>
  The limiter object: its configuration and the in-memory \<open>Map\<close> from client key to
  \<open>{ count, resetTime }\<close>. Times are milliseconds since the epoch, as \<open>Date.now()\<close>
  returns them.
\<close>

record rate_record =
  count :: int
  resetTime :: int

record limiter =
  windowMs :: int
  maxRequests :: int
  enabled :: bool
  store :: "string \<rightharpoonup> rate_record"

text \<open>
  The constructor: \<open>options.windowMs || 60000\<close> replaces a missing or zero window,
  \<open>maxRequests\<close> defaults to 10 only when it is \<open>undefined\<close>, and the limiter is
  enabled unless \<open>enabled\<close> is exactly \<open>false\<close>.
\<close>

record limiter_options =
  opt_windowMs :: "int option"
  opt_maxRequests :: "int option"
  opt_enabled :: "bool option"

definition RateLimiter :: "limiter_options \<Rightarrow> limiter" where
  "RateLimiter options =
     \<lparr> windowMs = (case opt_windowMs options of
                     None \<Rightarrow> 60000
                   | Some w \<Rightarrow> if w = 0 then 60000 else w),
       maxRequests = (case opt_maxRequests options of None \<Rightarrow> 10 | Some m \<Rightarrow> m),
       enabled = (opt_enabled options \<noteq> Some False),
       store = Map.empty \<rparr>"

record limit_info =
  allowed :: bool
  remaining :: int
  info_resetTime :: int

text \<open>\<open>checkLimit(ip)\<close>, with the value \<open>now\<close> that \<open>Date.now()\<close> returns in it.\<close>

definition fresh_window :: "int \<Rightarrow> string \<Rightarrow> limiter \<Rightarrow> limit_info \<times> limiter" where
  "fresh_window now ip L =
     (let rt = now + windowMs L in
      (\<lparr> allowed = True, remaining = maxRequests L - 1, info_resetTime = rt \<rparr>,
       L\<lparr> store := (store L)(ip \<mapsto> \<lparr> count = 1, resetTime = rt \<rparr>) \<rparr>))"

definition checkLimit :: "int \<Rightarrow> string \<Rightarrow> limiter \<Rightarrow> limit_info \<times> limiter" where
  "checkLimit now ip L =
     (case store L ip of
        None \<Rightarrow> fresh_window now ip L
      | Some record \<Rightarrow>
          if now \<ge> resetTime record then fresh_window now ip L
          else
            let record' = record\<lparr> count := count record + 1 \<rparr> in
            (\<lparr> allowed = (count record' \<le> maxRequests L),
               remaining = max 0 (maxRequests L - count record'),
               info_resetTime = resetTime record' \<rparr>,
             L\<lparr> store := (store L)(ip \<mapsto> record') \<rparr>))"

text \<open>
  The request as the middleware reads it: the \<open>x-forwarded-for\<close> header, \<open>req.ip\<close> and
  \<open>req.connection.remoteAddress\<close>, each a string or missing. \<open>trim\<close> removes the ASCII
  white space at both ends.
\<close>

record request =
  x_forwarded_for :: "string option"
  req_ip :: "string option"
  remoteAddress :: "string option"

definition is_space :: "char \<Rightarrow> bool" where
  "is_space c = (c \<in> set [CHR '' '', CHR 0x09, CHR 0x0A, CHR 0x0B, CHR 0x0C, CHR 0x0D])"

definition trim :: "string \<Rightarrow> string" where
  "trim s = rev (dropWhile is_space (rev (dropWhile is_space s)))"

definition truthy :: "string option \<Rightarrow> bool" where
  "truthy v = (case v of None \<Rightarrow> False | Some s \<Rightarrow> s \<noteq> [])"

definition getClientIp :: "request \<Rightarrow> string" where
  "getClientIp req =
     (if truthy (x_forwarded_for req)
      then trim (hd (split_on CHR '','' (the (x_forwarded_for req))))
      else if truthy (req_ip req) then the (req_ip req)
      else if truthy (remoteAddress req) then the (remoteAddress req)
      else ''unknown'')"

text \<open>
  What the middleware does to the response and how it continues: \<open>next()\<close>, or
  \<open>next(new RateLimitError(message, retryAfter))\<close>. A header that is not set is \<open>None\<close>.
\<close>

datatype continuation = Next | NextRateLimitError int

record mw_result =
  continue :: continuation
  hdr_limit :: "int option"
  hdr_remaining :: "int option"
  hdr_reset :: "int option"
  hdr_retry_after :: "int option"

text \<open>\<open>Math.ceil(x / 1000)\<close> and \<open>Math.floor(x / 1000)\<close> on integers.\<close>

definition ceil_div1000 :: "int \<Rightarrow> int" where
  "ceil_div1000 x = - ((- x) div 1000)"

definition floor_div1000 :: "int \<Rightarrow> int" where
  "floor_div1000 x = x div 1000"

text \<open>
  The middleware function. \<open>now\<close> is the clock value read inside \<open>checkLimit\<close>, \<open>now2\<close> the
  one read afterwards for the \<open>Retry-After\<close> header.
\<close>

definition middleware :: "int \<Rightarrow> int \<Rightarrow> request \<Rightarrow> limiter \<Rightarrow> mw_result \<times> limiter" where
  "middleware now now2 req L =
     (if \<not> enabled L \<or> maxRequests L \<le> 0
      then (\<lparr> continue = Next, hdr_limit = None, hdr_remaining = None,
               hdr_reset = None, hdr_retry_after = None \<rparr>, L)
      else
        let ip = getClientIp req;
            (limitInfo, L') = checkLimit now ip L;
            res = \<lparr> continue = Next,
                    hdr_limit = Some (maxRequests L),
                    hdr_remaining = Some (max 0 (remaining limitInfo)),
                    hdr_reset = Some (floor_div1000 (info_resetTime limitInfo)),
                    hdr_retry_after = None \<rparr>
        in if \<not> allowed limitInfo
           then
             let retryAfter = ceil_div1000 (info_resetTime limitInfo - now2) in
             (res\<lparr> continue := NextRateLimitError retryAfter,
                   hdr_retry_after := Some retryAfter \<rparr>, L')
           else (res, L'))"

text \<open>
  Repeated calls: \<open>checkLimit\<close> for one key at the successive clock values \<open>ts\<close>, and the
  middleware on a list of requests, each with its two clock values.
\<close>

fun checkLimits :: "int list \<Rightarrow> string \<Rightarrow> limiter \<Rightarrow> limit_info list \<times> limiter" where
  "checkLimits [] ip L = ([], L)"
| "checkLimits (t # ts) ip L =
     (let (info, L') = checkLimit t ip L;
          (infos, L'') = checkLimits ts ip L'
      in (info # infos, L''))"

fun middlewares :: "(int \<times> int \<times> request) list \<Rightarrow> limiter \<Rightarrow> mw_result list \<times> limiter" where
  "middlewares [] L = ([], L)"
| "middlewares ((now, now2, req) # rs) L =
     (let (res, L') = middleware now now2 req L;
          (ress, L'') = middlewares rs L'
      in (res # ress, L''))"

section \<open>The stores (models/Url.js, models/ClickEvent.js)\<close>

text \<open>
  A click event document and a URL document. The \<open>analytics.*\<close> fields of the URL schema
  are flattened into the record; counters are \<open>Number\<close>s with \<open>min: 0\<close> and default \<open>0\<close>,
  dates are milliseconds since the epoch. Schema fields that the analytics code never
  reads (\<open>customCode\<close>, \<open>updatedAt\<close>, \<open>metadata\<close>, \<open>country\<close>) are left out.
\<close>

record click_event =
  ev_shortCode :: string
  ev_timestamp :: int
  ev_anonymizedIp :: string
  ev_browser :: string
  ev_os :: string
  ev_referrer :: string

record referrer_stat =
  source :: string
  ref_count :: nat

record day_stat =
  date :: int
  day_count :: nat

record url_doc =
  shortCode :: string
  originalUrl :: string
  clicks :: nat
  isActive :: bool
  createdAt :: int
  totalClicks :: nat
  uniqueVisitors :: nat
  lastClickAt :: "int option"
  topReferrers :: "referrer_stat list"
  clicksByDay :: "day_stat list"

text \<open>
  Errors are identified by their \<open>name\<close>. \<open>VersionError\<close> is the optimistic-concurrency
  conflict of a document save, \<open>ValidationError\<close> a schema violation found by a save,
  \<open>TypeError\<close> a property read on \<open>undefined\<close>, \<open>StoreError\<close> any other failure of a
  store call.
\<close>

datatype error = VersionError | ValidationError | TypeError | StoreError

datatype store_call =
  Url_findOne_call | Url_save_call | Url_find_call | Url_deleteOne_call
  | ClickEvent_save_call | ClickEvent_distinct_call | ClickEvent_find_call

text \<open>
  The world the service runs in: the two collections, the outcomes that the coming store
  calls will have (\<open>None\<close>: the call succeeds; an exhausted list: every call succeeds),
  the store calls issued so far, and what has been written with \<open>console.error\<close>.
\<close>

record world =
  urls :: "url_doc list"
  events :: "click_event list"
  faults :: "error option list"
  calls :: "store_call list"
  console :: "error list"

definition store_call :: "store_call \<Rightarrow> world \<Rightarrow> error option \<times> world" where
  "store_call c w =
     (case faults w of
        [] \<Rightarrow> (None, w\<lparr> calls := calls w @ [c] \<rparr>)
      | f # fs \<Rightarrow> (f, w\<lparr> faults := fs, calls := calls w @ [c] \<rparr>))"

text \<open>\<open>Url.findOne({ shortCode })\<close>: the first document with that short code, or \<open>null\<close>.\<close>

definition Url_findOne :: "string \<Rightarrow> world \<Rightarrow> (error + url_doc option) \<times> world" where
  "Url_findOne code w =
     (case store_call Url_findOne_call w of
        (Some e, w') \<Rightarrow> (Inl e, w')
      | (None, w') \<Rightarrow> (Inr (find (\<lambda>d. shortCode d = code) (urls w')), w'))"

text \<open>\<open>clickEvent.save()\<close>: appends the event to the collection.\<close>

definition ClickEvent_save :: "click_event \<Rightarrow> world \<Rightarrow> (error + unit) \<times> world" where
  "ClickEvent_save ev w =
     (case store_call ClickEvent_save_call w of
        (Some e, w') \<Rightarrow> (Inl e, w')
      | (None, w') \<Rightarrow> (Inr (), w'\<lparr> events := events w' @ [ev] \<rparr>))"

text \<open>\<open>ClickEvent.distinct('anonymizedIp', { shortCode })\<close>.\<close>

definition ClickEvent_distinct :: "string \<Rightarrow> world \<Rightarrow> (error + string list) \<times> world" where
  "ClickEvent_distinct code w =
     (case store_call ClickEvent_distinct_call w of
        (Some e, w') \<Rightarrow> (Inl e, w')
      | (None, w') \<Rightarrow>
          (Inr (remdups (map ev_anonymizedIp
                  (filter (\<lambda>e. ev_shortCode e = code) (events w')))), w'))"

text \<open>
  \<open>urlDoc.save()\<close>. The schema is validated before anything is sent to the store: a
  \<open>required\<close> string must not be empty, which is the one constraint the analytics code
  can violate (the \<open>source\<close> of an entry of \<open>topReferrers\<close>). A successful save replaces
  the stored document of the same short code (the unique key of the collection).
\<close>

definition valid_url_doc :: "url_doc \<Rightarrow> bool" where
  "valid_url_doc d = list_all (\<lambda>r. source r \<noteq> []) (topReferrers d)"

fun replace_doc :: "url_doc \<Rightarrow> url_doc list \<Rightarrow> url_doc list" where
  "replace_doc d [] = []"
| "replace_doc d (x # xs) =
     (if shortCode x = shortCode d then d # xs else x # replace_doc d xs)"

definition Url_save :: "url_doc \<Rightarrow> world \<Rightarrow> (error + unit) \<times> world" where
  "Url_save d w =
     (if \<not> valid_url_doc d then (Inl ValidationError, w)
      else
        (case store_call Url_save_call w of
           (Some e, w') \<Rightarrow> (Inl e, w')
         | (None, w') \<Rightarrow> (Inr (), w'\<lparr> urls := replace_doc d (urls w') \<rparr>)))"

section \<open>Recording a click (AnalyticsService.js)\<close>

text \<open>
  Two functions of the JavaScript runtime are parameters of the model: the host name
  that \<open>new URL(s).hostname\<close> yields (\<open>None\<close> when the constructor throws), and the local
  midnight that \<open>setHours(0, 0, 0, 0)\<close> moves a date to.
\<close>

record runtime =
  url_hostname :: "string \<Rightarrow> string option"
  setHours0 :: "int \<Rightarrow> int"

text \<open>\<open>_extractReferrer(referrer)\<close>.\<close>

definition extractReferrer :: "runtime \<Rightarrow> string \<Rightarrow> string" where
  "extractReferrer rt referrer =
     (if referrer = [] then ''direct''
      else (case url_hostname rt referrer of
              Some hostname \<Rightarrow> hostname
            | None \<Rightarrow> ''direct''))"

text \<open>
  \<open>_updateTopReferrers(urlDoc, referrer)\<close>: the first entry with that source is
  incremented, or \<open>{ source, count: 1 }\<close> is pushed; then the array is sorted by count,
  descending (\<open>Array.prototype.sort\<close> is stable), and cut to 10 entries.
\<close>

fun increment_referrer :: "string \<Rightarrow> referrer_stat list \<Rightarrow> referrer_stat list" where
  "increment_referrer referrer [] = []"
| "increment_referrer referrer (r # rs) =
     (if source r = referrer then r\<lparr> ref_count := ref_count r + 1 \<rparr> # rs
      else r # increment_referrer referrer rs)"

definition updateTopReferrers :: "url_doc \<Rightarrow> string \<Rightarrow> url_doc" where
  "updateTopReferrers urlDoc referrer =
     (let existingReferrer = find (\<lambda>r. source r = referrer) (topReferrers urlDoc);
          pushed = (case existingReferrer of
                      Some r \<Rightarrow> increment_referrer referrer (topReferrers urlDoc)
                    | None \<Rightarrow> topReferrers urlDoc @ [\<lparr> source = referrer, ref_count = 1 \<rparr>]);
          sorted = sort_key (\<lambda>r. - int (ref_count r)) pushed
      in urlDoc\<lparr> topReferrers := take 10 sorted \<rparr>)"

text \<open>\<open>_updateClicksByDay(urlDoc, timestamp)\<close>, in the same way, by day, cut to 30 entries.\<close>

fun increment_day :: "int \<Rightarrow> day_stat list \<Rightarrow> day_stat list" where
  "increment_day clickDate [] = []"
| "increment_day clickDate (d # ds) =
     (if date d = clickDate then d\<lparr> day_count := day_count d + 1 \<rparr> # ds
      else d # increment_day clickDate ds)"

definition updateClicksByDay :: "runtime \<Rightarrow> url_doc \<Rightarrow> int \<Rightarrow> url_doc" where
  "updateClicksByDay rt urlDoc timestamp =
     (let clickDate = setHours0 rt timestamp;
          existingDay = find (\<lambda>d. date d = clickDate) (clicksByDay urlDoc);
          pushed = (case existingDay of
                      Some d \<Rightarrow> increment_day clickDate (clicksByDay urlDoc)
                    | None \<Rightarrow> clicksByDay urlDoc @ [\<lparr> date = clickDate, day_count = 1 \<rparr>]);
          sorted = sort_key (\<lambda>d. - date d) pushed
      in urlDoc\<lparr> clicksByDay := take 30 sorted \<rparr>)"

text \<open>
  \<open>_updateAggregatedStats(shortCode, clickData)\<close>. The \<open>try\<close> block and the \<open>catch\<close>
  block run the same statements, here \<open>update_attempt\<close>: read the document, add one to
  \<open>totalClicks\<close>, set \<open>lastClickAt\<close>, recount the distinct addresses of the link's events,
  update the two lists, save. An error of the first attempt whose name is
  \<open>VersionError\<close> starts the second attempt; any other error, and every error of the
  second attempt, is thrown to the caller.
\<close>

record click_data =
  cd_anonymizedIp :: string
  cd_referrer :: string
  cd_timestamp :: int

definition update_attempt ::
  "runtime \<Rightarrow> string \<Rightarrow> click_data \<Rightarrow> world \<Rightarrow> (error + unit) \<times> world" where
  "update_attempt rt code clickData w =
     (case Url_findOne code w of
        (Inl e, w1) \<Rightarrow> (Inl e, w1)
      | (Inr None, w1) \<Rightarrow> (Inr (), w1)
      | (Inr (Some urlDoc), w1) \<Rightarrow>
          let d1 = urlDoc\<lparr> totalClicks := totalClicks urlDoc + 1,
                           lastClickAt := Some (cd_timestamp clickData) \<rparr>
          in (case ClickEvent_distinct code w1 of
                (Inl e, w2) \<Rightarrow> (Inl e, w2)
              | (Inr uniqueIps, w2) \<Rightarrow>
                  let d2 = d1\<lparr> uniqueVisitors := length uniqueIps \<rparr>;
                      d3 = updateTopReferrers d2 (cd_referrer clickData);
                      d4 = updateClicksByDay rt d3 (cd_timestamp clickData)
                  in Url_save d4 w2))"

definition updateAggregatedStats ::
  "runtime \<Rightarrow> string \<Rightarrow> click_data \<Rightarrow> world \<Rightarrow> (error + unit) \<times> world" where
  "updateAggregatedStats rt code clickData w =
     (case update_attempt rt code clickData w of
        (Inr u, w1) \<Rightarrow> (Inr u, w1)
      | (Inl e, w1) \<Rightarrow>
          if e = VersionError then update_attempt rt code clickData w1
          else (Inl e, w1))"

text \<open>
  \<open>recordClick(shortCode, data)\<close>. \<open>data\<close> is the object the caller passes, or missing;
  each of its fields is a string or missing. \<open>recordClick_try\<close> is the body of the \<open>try\<close>
  block, \<open>recordClick\<close> adds the \<open>catch\<close>, which writes the error to the console and
  returns. \<open>now\<close> is the value of \<open>new Date()\<close>.
\<close>

record click_input =
  data_ip :: "string option"
  data_userAgent :: "string option"
  data_referrer :: "string option"

definition or_empty :: "string option \<Rightarrow> string" where
  "or_empty v = (case v of None \<Rightarrow> [] | Some s \<Rightarrow> s)"

definition recordClick_try ::
  "runtime \<Rightarrow> int \<Rightarrow> string \<Rightarrow> click_input option \<Rightarrow> world \<Rightarrow> (error + unit) \<times> world" where
  "recordClick_try rt now code data w =
     (case Url_findOne code w of
        (Inl e, w1) \<Rightarrow> (Inl e, w1)
      | (Inr None, w1) \<Rightarrow> (Inr (), w1)
      | (Inr (Some urlDoc), w1) \<Rightarrow>
          (case data of
             None \<Rightarrow> (Inl TypeError, w1)
           | Some d \<Rightarrow>
               let anonymizedIp = anonymizeIp (data_ip d);
                   (browser, os) = parseUserAgent (or_empty (data_userAgent d));
                   referrer = extractReferrer rt (or_empty (data_referrer d));
                   clickEvent = \<lparr> ev_shortCode = code, ev_timestamp = now,
                                  ev_anonymizedIp = anonymizedIp, ev_browser = browser,
                                  ev_os = os, ev_referrer = referrer \<rparr>
               in (case ClickEvent_save clickEvent w1 of
                     (Inl e, w2) \<Rightarrow> (Inl e, w2)
                   | (Inr u, w2) \<Rightarrow>
                       updateAggregatedStats rt code
                         \<lparr> cd_anonymizedIp = anonymizedIp, cd_referrer = referrer,
                           cd_timestamp = ev_timestamp clickEvent \<rparr> w2)))"

definition recordClick ::
  "runtime \<Rightarrow> int \<Rightarrow> string \<Rightarrow> click_input option \<Rightarrow> world \<Rightarrow> (error + unit) \<times> world" where
  "recordClick rt now code data w =
     (case recordClick_try rt now code data w of
        (Inl e, w') \<Rightarrow> (Inr (), w'\<lparr> console := console w' @ [e] \<rparr>)
      | (Inr u, w') \<Rightarrow> (Inr u, w'))"

text \<open>Successive calls for one link, each with its clock value and its input.\<close>

fun recordClicks ::
  "runtime \<Rightarrow> string \<Rightarrow> (int \<times> click_input option) list \<Rightarrow> world \<Rightarrow> world" where
  "recordClicks rt code [] w = w"
| "recordClicks rt code ((now, data) # rest) w =
     recordClicks rt code rest (snd (recordClick rt now code data w))"

section \<open>Queries (AnalyticsService.js)\<close>

text \<open>
  The options of \<open>getUrlAnalytics\<close>: each bound is a date (the value of
  \<open>new Date(options.startDate)\<close>, in milliseconds) or missing. \<open>time_query\<close> is the
  condition \<open>{ $gte: startDate, $lte: endDate }\<close> that the function puts on \<open>timestamp\<close>.
\<close>

record analytics_options =
  startDate :: "int option"
  endDate :: "int option"

definition time_query :: "analytics_options \<Rightarrow> int \<Rightarrow> bool" where
  "time_query options t =
     ((case startDate options of None \<Rightarrow> True | Some s \<Rightarrow> s \<le> t) \<and>
      (case endDate options of None \<Rightarrow> True | Some e \<Rightarrow> t \<le> e))"

text \<open>\<open>ClickEvent.find(query).sort({ timestamp: -1 })\<close>.\<close>

definition ClickEvent_find ::
  "string \<Rightarrow> analytics_options \<Rightarrow> world \<Rightarrow> (error + click_event list) \<times> world" where
  "ClickEvent_find code options w =
     (case store_call ClickEvent_find_call w of
        (Some e, w') \<Rightarrow> (Inl e, w')
      | (None, w') \<Rightarrow>
          (Inr (sort_key (\<lambda>e. - ev_timestamp e)
                  (filter (\<lambda>e. ev_shortCode e = code \<and> time_query options (ev_timestamp e))
                     (events w'))), w'))"

text \<open>
  \<open>getUrlAnalytics(shortCode, options)\<close>: \<open>null\<close> (here \<open>None\<close>) for an unknown short code,
  otherwise the figures computed from the selected events. The model keeps the scalar
  fields of the result; the grouped lists (\<open>topReferrers\<close>, \<open>topBrowsers\<close>, \<open>topOS\<close>,
  \<open>clickHistory\<close>) are computed from the same events and are left out. An error of a
  store call is thrown to the caller.
\<close>

record url_analytics =
  ua_shortCode :: string
  ua_originalUrl :: string
  ua_totalClicks :: nat
  ua_uniqueVisitors :: nat
  ua_lastClickAt :: "int option"

definition getUrlAnalytics ::
  "string \<Rightarrow> analytics_options \<Rightarrow> world \<Rightarrow> (error + url_analytics option) \<times> world" where
  "getUrlAnalytics code options w =
     (case Url_findOne code w of
        (Inl e, w1) \<Rightarrow> (Inl e, w1)
      | (Inr None, w1) \<Rightarrow> (Inr None, w1)
      | (Inr (Some urlDoc), w1) \<Rightarrow>
          (case ClickEvent_find code options w1 of
             (Inl e, w2) \<Rightarrow> (Inl e, w2)
           | (Inr clickEvents, w2) \<Rightarrow>
               (Inr (Some
                  \<lparr> ua_shortCode = code,
                    ua_originalUrl = originalUrl urlDoc,
                    ua_totalClicks = length clickEvents,
                    ua_uniqueVisitors = length (remdups (map ev_anonymizedIp clickEvents)),
                    ua_lastClickAt = (case clickEvents of
                                        [] \<Rightarrow> None
                                      | e # es \<Rightarrow> Some (ev_timestamp e)) \<rparr>), w2)))"

text \<open>
  \<open>Url.find({ isActive: true }).sort({ 'analytics.totalClicks': -1 }).limit(limit)\<close>.
  The store's \<open>limit\<close>: a positive number bounds the result, \<open>0\<close> means no limit, and a
  negative number bounds it by its absolute value.
\<close>

definition store_limit :: "int \<Rightarrow> 'a list \<Rightarrow> 'a list" where
  "store_limit n xs = (if n = 0 then xs else take (nat \<bar>n\<bar>) xs)"

definition Url_find_popular :: "int \<Rightarrow> world \<Rightarrow> (error + url_doc list) \<times> world" where
  "Url_find_popular limit w =
     (case store_call Url_find_call w of
        (Some e, w') \<Rightarrow> (Inl e, w')
      | (None, w') \<Rightarrow>
          (Inr (store_limit limit
                  (sort_key (\<lambda>d. - int (totalClicks d)) (filter isActive (urls w')))), w'))"

text \<open>
  \<open>getPopularUrls(limit = 10)\<close> and the entries it returns. The route
  \<open>GET /api/analytics/popular\<close> passes \<open>parseInt(limit, 10)\<close> when the query has a
  \<open>limit\<close>, and \<open>10\<close> otherwise.
\<close>

record popular_url =
  pu_shortCode :: string
  pu_originalUrl :: string
  pu_clicks :: nat
  pu_totalClicks :: nat
  pu_uniqueVisitors :: nat
  pu_createdAt :: int

definition getPopularUrls :: "int option \<Rightarrow> world \<Rightarrow> (error + popular_url list) \<times> world" where
  "getPopularUrls limit w =
     (case Url_find_popular (case limit of None \<Rightarrow> 10 | Some n \<Rightarrow> n) w of
        (Inl e, w') \<Rightarrow> (Inl e, w')
      | (Inr found, w') \<Rightarrow>
          (Inr (map (\<lambda>url. \<lparr> pu_shortCode = shortCode url,
                               pu_originalUrl = originalUrl url,
                               pu_clicks = clicks url,
                               pu_totalClicks = totalClicks url,
                               pu_uniqueVisitors = uniqueVisitors url,
                               pu_createdAt = createdAt url \<rparr>) found), w'))"

definition popular_route :: "int option \<Rightarrow> world \<Rightarrow> (error + popular_url list) \<times> world" where
  "popular_route limit w =
     (let limitNum = (case limit of Some n \<Rightarrow> n | None \<Rightarrow> 10)
      in getPopularUrls (Some limitNum) w)"

section \<open>Creating and deleting links (UrlService.js)\<close>

text \<open>
  \<open>deleteUrl(shortCode)\<close> is \<open>Url.deleteOne({ shortCode })\<close>: it removes the first document
  with that short code and nothing else; the click events of the link stay in their
  collection.
\<close>

fun delete_first :: "string \<Rightarrow> url_doc list \<Rightarrow> url_doc list" where
  "delete_first code [] = []"
| "delete_first code (d # ds) = (if shortCode d = code then ds else d # delete_first code ds)"

definition deleteUrl :: "string \<Rightarrow> world \<Rightarrow> (error + bool) \<times> world" where
  "deleteUrl code w =
     (case store_call Url_deleteOne_call w of
        (Some e, w') \<Rightarrow> (Inl e, w')
      | (None, w') \<Rightarrow>
          (Inr (length (delete_first code (urls w')) < length (urls w')),
           w'\<lparr> urls := delete_first code (urls w') \<rparr>))"

text \<open>
  The last step of \<open>createShortUrl\<close>, \<open>new Url({ shortCode, originalUrl, ... }).save()\<close>,
  for a short code that is not in use: the document gets the defaults of the schema.
  The validation of the URL and of the code, which precedes it, is not modelled.
\<close>

definition new_url_doc :: "string \<Rightarrow> string \<Rightarrow> int \<Rightarrow> url_doc" where
  "new_url_doc code original now =
     \<lparr> shortCode = code, originalUrl = original, clicks = 0, isActive = True,
       createdAt = now, totalClicks = 0, uniqueVisitors = 0, lastClickAt = None,
       topReferrers = [], clicksByDay = [] \<rparr>"

definition saveNewUrl :: "string \<Rightarrow> string \<Rightarrow> int \<Rightarrow> world \<Rightarrow> (error + unit) \<times> world" where
  "saveNewUrl code original now w =
     (case store_call Url_save_call w of
        (Some e, w') \<Rightarrow> (Inl e, w')
      | (None, w') \<Rightarrow> (Inr (), w'\<lparr> urls := urls w' @ [new_url_doc code original now] \<rparr>))"

section \<open>Concrete inputs\<close>

text \<open>
  A limiter of three requests per minute, one whose window of 1500 ms is not a whole
  number of seconds, and a request that carries only \<open>req.ip\<close>.
\<close>

definition limiter_3_per_minute :: limiter where
  "limiter_3_per_minute =
     RateLimiter \<lparr> opt_windowMs = Some 60000, opt_maxRequests = Some 3, opt_enabled = None \<rparr>"

definition limiter_1_per_1500ms :: limiter where
  "limiter_1_per_1500ms =
     RateLimiter \<lparr> opt_windowMs = Some 1500, opt_maxRequests = Some 1, opt_enabled = None \<rparr>"

definition limiter_max_0 :: limiter where
  "limiter_max_0 =
     RateLimiter \<lparr> opt_windowMs = Some 60000, opt_maxRequests = Some 0, opt_enabled = Some True \<rparr>"

definition request_from :: "string \<Rightarrow> request" where
  "request_from addr = \<lparr> x_forwarded_for = None, req_ip = Some addr, remoteAddress = None \<rparr>"

section \<open>Notions used in the properties\<close>

text \<open>
  The document that an update attempt saves, from the document it read and the distinct
  addresses it counted: the statements of \<open>update_attempt\<close> between the read and the save.
\<close>

definition saved_doc :: "runtime \<Rightarrow> click_data \<Rightarrow> string list \<Rightarrow> url_doc \<Rightarrow> url_doc" where
  "saved_doc rt clickData uniqueIps urlDoc =
     updateClicksByDay rt
       (updateTopReferrers
          (urlDoc\<lparr> totalClicks := totalClicks urlDoc + 1,
                   lastClickAt := Some (cd_timestamp clickData),
                   uniqueVisitors := length uniqueIps \<rparr>)
          (cd_referrer clickData))
       (cd_timestamp clickData)"

text \<open>The events of a link, its distinct masked addresses, and the link's document.\<close>

definition link_events :: "string \<Rightarrow> world \<Rightarrow> click_event list" where
  "link_events code w = filter (\<lambda>e. ev_shortCode e = code) (events w)"

definition distinct_visitors :: "string \<Rightarrow> world \<Rightarrow> nat" where
  "distinct_visitors code w = length (remdups (map ev_anonymizedIp (link_events code w)))"

definition link_doc :: "string \<Rightarrow> world \<Rightarrow> url_doc option" where
  "link_doc code w = find (\<lambda>d. shortCode d = code) (urls w)"

text \<open>The next \<open>n\<close> store calls succeed.\<close>

definition succeed :: "nat \<Rightarrow> world \<Rightarrow> bool" where
  "succeed n w = list_all (\<lambda>f. f = None) (take n (faults w))"

text \<open>The number of document saves among the store calls issued so far.\<close>

definition url_saves :: "world \<Rightarrow> nat" where
  "url_saves w = length (filter (\<lambda>c. c = Url_save_call) (calls w))"

text \<open>The masked address that a call of \<open>recordClick\<close> with this input stores.\<close>

definition masked_address :: "click_input option \<Rightarrow> string" where
  "masked_address data = (case data of None \<Rightarrow> ''unknown'' | Some d \<Rightarrow> anonymizeIp (data_ip d))"

text \<open>
  A runtime for the concrete inputs: the host name of an \<open>https\<close> URL is what stands
  between the scheme and the next slash, any other string is not a URL; the local time
  zone is UTC.
\<close>

definition utc_runtime :: runtime where
  "utc_runtime =
     \<lparr> url_hostname = (\<lambda>s. if startsWith s ''https://''
                              then Some (takeWhile (\<lambda>c. c \<noteq> CHR ''/'') (drop 8 s))
                              else None),
       setHours0 = (\<lambda>t. t - t mod 86400000) \<rparr>"

definition empty_world :: world where
  "empty_world = \<lparr> urls = [], events = [], faults = [], calls = [], console = [] \<rparr>"

definition click_from :: "string \<Rightarrow> click_input option" where
  "click_from addr =
     Some \<lparr> data_ip = Some addr, data_userAgent = None, data_referrer = None \<rparr>"

text \<open>
  A world with the one link \<open>abc\<close>, just created, and three clicks on it, the first two
  from addresses that differ only in the last octet.
\<close>

definition world_with_link :: world where
  "world_with_link = snd (saveNewUrl ''abc'' ''https://example.com/page'' 1700000000000 empty_world)"

definition three_clicks :: "(int \<times> click_input option) list" where
  "three_clicks =
     [(1700000001000, click_from ''10.0.0.1''),
      (1700000002000, click_from ''10.0.0.2''),
      (1700000003000, click_from ''192.168.5.9'')]"

definition world_after_clicks :: world where
  "world_after_clicks = recordClicks utc_runtime ''abc'' three_clicks world_with_link"

text \<open>
  The same world when the first save of the aggregate meets a version conflict and the
  save of the retry meets another one.
\<close>

definition world_with_conflicts :: world where
  "world_with_conflicts =
     world_with_link\<lparr> faults := [None, None, None, None, Some VersionError,
                                  None, None, Some VersionError] \<rparr>"

text \<open>
  The link \<open>abc\<close> deleted after its three clicks and created again with the same custom
  code; and a world of 101 active links with the short codes \<open>link000\<close> to \<open>link100\<close>.
\<close>

definition world_recreated :: world where
  "world_recreated =
     snd (saveNewUrl ''abc'' ''https://example.org/other'' 1700000500000
            (snd (deleteUrl ''abc'' world_after_clicks)))"

definition numbered_code :: "nat \<Rightarrow> string" where
  "numbered_code n =
     ''link'' @ [char_of (48 + n div 100), char_of (48 + n div 10 mod 10), char_of (48 + n mod 10)]"

definition world_101_links :: world where
  "world_101_links =
     empty_world\<lparr> urls := map (\<lambda>n. (new_url_doc (numbered_code n) ''https://example.com/page''
                                      1700000000000)\<lparr> totalClicks := n \<rparr>) [0..<101] \<rparr>"

text \<open>The length of the list that a query returns; \<open>None\<close> when it throws.\<close>

definition result_length :: "(error + 'a list) \<times> world \<Rightarrow> nat option" where
  "result_length r = (case fst r of Inl e \<Rightarrow> None | Inr xs \<Rightarrow> Some (length xs))"

section \<open>Properties of the string primitives\<close>

lemma split_on_ne [simp]: "split_on c s \<noteq> []"
  by (induction s) (auto split: list.splits)

lemma join_Cons_char: "join sep ((x # p) # ps) = x # join sep (p # ps)"
  by (cases ps) simp_all

lemma join_Nil_part: "ps \<noteq> [] \<Longrightarrow> join sep ([] # ps) = sep @ join sep ps"
  by (cases ps) simp_all

lemma join_split_on: "join [c] (split_on c s) = s"
proof (induction s)
  case Nil
  show ?case by simp
next
  case (Cons x xs)
  show ?case
  proof (cases "x = c")
    case True
    then show ?thesis using Cons by (simp add: join_Nil_part)
  next
    case False
    obtain p ps where sp: "split_on c xs = p # ps"
      by (cases "split_on c xs") simp_all
    with False Cons show ?thesis by (simp add: join_Cons_char)
  qed
qed

lemma split_on_nosep: "c \<notin> set a \<Longrightarrow> split_on c a = [a]"
  by (induction a) (auto split: list.splits)

lemma split_on_append: "c \<notin> set a \<Longrightarrow> split_on c (a @ c # r) = a # split_on c r"
  by (induction a) (auto split: list.splits)

lemma split_on_parts_nosep: "p \<in> set (split_on c s) \<Longrightarrow> c \<notin> set p"
  by (induction s arbitrary: p) (auto split: if_splits list.splits)

lemma ipv4_shape:
  "c \<notin> set a \<Longrightarrow> c \<notin> set b \<Longrightarrow> c \<notin> set d \<Longrightarrow> c \<notin> set e \<Longrightarrow>
   split_on c (a @ [c] @ b @ [c] @ d @ [c] @ e) = [a, b, d, e]"
  by (simp add: split_on_append split_on_nosep)

section \<open>Properties of the anonymiser\<close>

text \<open>
  Claim C3. IPv4 address masking. For a string of exactly four dot-separated segments
  (joining its segments with dots gives the string back), \<open>anonymizeIp\<close> returns the first
  three segments, verbatim, followed by the three-character sentinel \<open>xxx\<close>, and the result
  again has four segments, the last being the sentinel. An input that is neither a four-part
  dotted string nor a colon-containing string of at least four groups (a missing input
  included) yields the literal \<open>unknown\<close>.
\<close>

theorem anonymizeIp_masks_last_segment:
  "(length (split_on CHR ''.'' s) = 4 \<longrightarrow>
      join ''.'' (split_on CHR ''.'' s) = s \<and>
      anonymizeIp (Some s) = join ''.'' (take 3 (split_on CHR ''.'' s) @ [''xxx'']) \<and>
      split_on CHR ''.'' (anonymizeIp (Some s)) = take 3 (split_on CHR ''.'' s) @ [''xxx'']) \<and>
   (\<not> dotted4 ip \<and> \<not> colon4 ip \<longrightarrow> anonymizeIp ip = ''unknown'')"
proof (intro conjI impI)
  assume len: "length (split_on CHR ''.'' s) = 4"
  show "join ''.'' (split_on CHR ''.'' s) = s" by (rule join_split_on)
  obtain a b c d where sp: "split_on CHR ''.'' s = [a, b, c, d]"
    using len by (auto simp: length_Suc_conv numeral_eq_Suc)
  have nd: "CHR ''.'' \<notin> set a" "CHR ''.'' \<notin> set b" "CHR ''.'' \<notin> set c"
    using split_on_parts_nosep[of _ "CHR ''.''" s] sp by auto
  have "s \<noteq> []" using sp by auto
  then show res: "anonymizeIp (Some s) = join ''.'' (take 3 (split_on CHR ''.'' s) @ [''xxx''])"
    using sp by (simp add: anonymizeIp_def)
  have "split_on CHR ''.'' (a @ [CHR ''.''] @ b @ [CHR ''.''] @ c @ [CHR ''.''] @ ''xxx'') = [a, b, c, ''xxx'']"
    using nd by (intro ipv4_shape) simp_all
  then show "split_on CHR ''.'' (anonymizeIp (Some s)) = take 3 (split_on CHR ''.'' s) @ [''xxx'']"
    unfolding res using sp by simp
next
  assume "\<not> dotted4 ip \<and> \<not> colon4 ip"
  then show "anonymizeIp ip = ''unknown''"
    by (auto simp: anonymizeIp_def dotted4_def colon4_def Let_def split: option.splits)
qed

text \<open>The masking at a private IPv4 address, and the fallback at a host name.\<close>

theorem anonymizeIp_masks_last_segment_witness:
  "length (split_on CHR ''.'' ''192.168.1.77'') = 4 \<and>
   anonymizeIp (Some ''192.168.1.77'') = ''192.168.1.xxx'' \<and>
   \<not> dotted4 (Some ''localhost'') \<and> \<not> colon4 (Some ''localhost'') \<and>
   anonymizeIp (Some ''localhost'') = ''unknown''"
proof -
  note T = anonymizeIp_masks_last_segment[of "''192.168.1.77''" "Some ''localhost''"]
  have len: "length (split_on CHR ''.'' ''192.168.1.77'') = 4"
    by code_simp
  have sh: "\<not> dotted4 (Some ''localhost'') \<and> \<not> colon4 (Some ''localhost'')"
    by code_simp
  from T len
  have "anonymizeIp (Some ''192.168.1.77'') =
          join ''.'' (take 3 (split_on CHR ''.'' ''192.168.1.77'') @ [''xxx''])"
    by blast
  also have "\<dots> = ''192.168.1.xxx''"
    by code_simp
  finally have r1: "anonymizeIp (Some ''192.168.1.77'') = ''192.168.1.xxx''" .
  from T sh have r2: "anonymizeIp (Some ''localhost'') = ''unknown''"
    by blast
  show ?thesis using len r1 r2 sh by blast
qed

text \<open>
  Claim C10. Browser-detection precedence, as amended. For every user-agent string that
  contains \<open>Chrome/\<close> the parser returns \<open>Chrome\<close>, or \<open>Edge\<close> when \<open>Edg/\<close> is present too, and
  never \<open>Opera\<close>, whatever else the string contains. \<open>Opera\<close> is returned only for a string
  that contains none of \<open>Edg/\<close>, \<open>Chrome/\<close>, \<open>Firefox/\<close>, that does not satisfy the Safari
  test (\<open>Safari/\<close> present and \<open>Chrome\<close> absent), and that contains \<open>Opera/\<close> or \<open>OPR/\<close>.
\<close>

theorem chrome_token_precedence:
  "(str_includes ua ''Chrome/'' \<longrightarrow>
      parseBrowser ua = (if str_includes ua ''Edg/'' then ''Edge'' else ''Chrome'') \<and>
      parseBrowser ua \<noteq> ''Opera'') \<and>
   (parseBrowser ua = ''Opera'' \<longrightarrow>
      \<not> str_includes ua ''Edg/'' \<and> \<not> str_includes ua ''Chrome/'' \<and>
      \<not> str_includes ua ''Firefox/'' \<and>
      \<not> (str_includes ua ''Safari/'' \<and> \<not> str_includes ua ''Chrome'') \<and>
      (str_includes ua ''Opera/'' \<or> str_includes ua ''OPR/''))"
proof -
  have ne: "str_includes ua ''Chrome/'' \<Longrightarrow> ua \<noteq> []" by (cases ua) auto
  show ?thesis using ne by (auto simp: parseBrowser_def split: if_splits)
qed

text \<open>A current Opera user agent is reported as Chrome; a Presto-era one as Opera.\<close>

theorem chrome_token_precedence_witness:
  "str_includes ''Mozilla/5.0 Chrome/91.0 Safari/537.36 OPR/77.0'' ''Chrome/'' \<and>
   parseBrowser ''Mozilla/5.0 Chrome/91.0 Safari/537.36 OPR/77.0'' = ''Chrome'' \<and>
   parseBrowser ''Opera/9.80 (Windows NT 6.1) Presto/2.12'' = ''Opera'' \<and>
   \<not> str_includes ''Opera/9.80 (Windows NT 6.1) Presto/2.12'' ''Chrome/''"
  using chrome_token_precedence[of "''Mozilla/5.0 Chrome/91.0 Safari/537.36 OPR/77.0''"]
        chrome_token_precedence[of "''Opera/9.80 (Windows NT 6.1) Presto/2.12''"]
  by (simp add: parseBrowser_def)

text \<open>
  The claim as it was stated lets \<open>Opera\<close> be returned only for strings without the
  \<open>Safari/\<close> token. The Safari branch also requires that \<open>Chrome\<close> is absent, so a string
  with \<open>Safari/\<close>, \<open>Chrome\<close> (no slash) and \<open>OPR/\<close> falls through to the Opera branch.
\<close>

theorem opera_with_safari_token_counterexample:
  "str_includes ''Mozilla/5.0 Chrome Safari/537.36 OPR/77.0'' ''Safari/'' \<and>
   parseBrowser ''Mozilla/5.0 Chrome Safari/537.36 OPR/77.0'' = ''Opera''"
  by (simp add: parseBrowser_def)

section \<open>Properties of the rate limiter\<close>

lemma checkLimit_in_window:
  assumes "store L ip = Some r" "now < resetTime r"
  shows "checkLimit now ip L =
     (\<lparr> allowed = (count r + 1 \<le> maxRequests L),
        remaining = max 0 (maxRequests L - (count r + 1)),
        info_resetTime = resetTime r \<rparr>,
      L\<lparr> store := (store L)(ip \<mapsto> r\<lparr> count := count r + 1 \<rparr>) \<rparr>)"
  using assms by (simp add: checkLimit_def Let_def)

lemma checkLimit_fresh:
  assumes "store L ip = None"
  shows "checkLimit now ip L =
     (\<lparr> allowed = True, remaining = maxRequests L - 1, info_resetTime = now + windowMs L \<rparr>,
      L\<lparr> store := (store L)(ip \<mapsto> \<lparr> count = 1, resetTime = now + windowMs L \<rparr>) \<rparr>)"
  using assms by (simp add: checkLimit_def fresh_window_def Let_def)

lemma upt_0_Suc_map: "[0..<Suc n] = 0 # map Suc [0..<n]"
  by (simp only: map_Suc_upt upt_conv_Cons[of 0 "Suc n"] zero_less_Suc)

lemma checkLimits_in_window:
  assumes "store L ip = Some r" "\<forall>t\<in>set ts. t < resetTime r"
  shows "checkLimits ts ip L =
     (map (\<lambda>i. \<lparr> allowed = (count r + 1 + int i \<le> maxRequests L),
                 remaining = max 0 (maxRequests L - (count r + 1 + int i)),
                 info_resetTime = resetTime r \<rparr>) [0..<length ts],
      L\<lparr> store := (store L)(ip \<mapsto> r\<lparr> count := count r + int (length ts) \<rparr>) \<rparr>)"
  using assms
proof (induction ts arbitrary: L r)
  case Nil
  then show ?case by (simp add: fun_upd_idem)
next
  case (Cons t ts)
  let ?r' = "r\<lparr> count := count r + 1 \<rparr>"
  let ?L' = "L\<lparr> store := (store L)(ip \<mapsto> ?r') \<rparr>"
  have 1: "checkLimit t ip L = (\<lparr> allowed = (count r + 1 \<le> maxRequests L),
        remaining = max 0 (maxRequests L - (count r + 1)),
        info_resetTime = resetTime r \<rparr>, ?L')"
    using Cons.prems by (simp add: checkLimit_in_window)
  have 2: "store ?L' ip = Some ?r'" by simp
  have 3: "\<forall>t\<in>set ts. t < resetTime ?r'" using Cons.prems by simp
  note IH = Cons.IH[OF 2 3]
  have len: "length (t # ts) = Suc (length ts)" by simp
  show ?case
    apply (simp only: checkLimits.simps 1 Let_def split_conv IH len upt_0_Suc_map)
    apply (simp add: o_def add.assoc add.commute add.left_commute)
    apply (rule arg_cong[of _ _ "\<lambda>s. L\<lparr>store := s\<rparr>"])
    apply (rule ext)
    apply simp
    done
qed

lemma checkLimits_fresh:
  assumes "store L ip = None" "\<forall>t\<in>set ts. t < t0 + windowMs L" "1 \<le> maxRequests L"
  shows "checkLimits (t0 # ts) ip L =
     (map (\<lambda>i. \<lparr> allowed = (1 + int i \<le> maxRequests L),
                 remaining = max 0 (maxRequests L - (1 + int i)),
                 info_resetTime = t0 + windowMs L \<rparr>) [0..<Suc (length ts)],
      L\<lparr> store := (store L)(ip \<mapsto> \<lparr> count = 1 + int (length ts), resetTime = t0 + windowMs L \<rparr>) \<rparr>)"
proof -
  let ?r = "\<lparr> count = 1, resetTime = t0 + windowMs L \<rparr>"
  let ?L' = "L\<lparr> store := (store L)(ip \<mapsto> ?r) \<rparr>"
  have 2: "store ?L' ip = Some ?r" by simp
  have 3: "\<forall>t\<in>set ts. t < resetTime ?r" using assms by simp
  note W = checkLimits_in_window[OF 2 3]
  show ?thesis
    using assms(3)
    apply (simp only: checkLimits.simps checkLimit_fresh[OF assms(1)] Let_def split_conv W upt_0_Suc_map)
    apply (simp add: o_def add.assoc add.commute add.left_commute)
    done
qed

lemma ceil_div1000_bounds:
  assumes "0 < x" "x \<le> w"
  shows "0 < ceil_div1000 x \<and> ceil_div1000 x \<le> ceil_div1000 w"
proof -
  have "(- x) div 1000 < 0" using assms(1) by (simp add: neg_imp_zdiv_neg_iff)
  moreover have "(- w) div 1000 \<le> (- x) div 1000"
    using assms(2) by (intro zdiv_mono1) simp_all
  ultimately show ?thesis by (simp add: ceil_div1000_def)
qed

lemma middleware_denied:
  assumes "enabled L" "0 < maxRequests L" "store L (getClientIp req) = Some r"
          "now < resetTime r" "maxRequests L \<le> count r"
  shows "fst (middleware now now2 req L) =
      \<lparr> continue = NextRateLimitError (ceil_div1000 (resetTime r - now2)),
        hdr_limit = Some (maxRequests L), hdr_remaining = Some 0,
        hdr_reset = Some (floor_div1000 (resetTime r)),
        hdr_retry_after = Some (ceil_div1000 (resetTime r - now2)) \<rparr>"
  using assms by (simp add: middleware_def checkLimit_in_window[OF assms(3,4)] Let_def)

lemma map_const_replicate: "(\<forall>x\<in>set xs. f x = c) \<Longrightarrow> map f xs = replicate (length xs) c"
  by (induction xs) simp_all

lemma middleware_disabled:
  "\<not> enabled L \<or> maxRequests L \<le> 0 \<Longrightarrow>
   middleware now now2 req L =
     (\<lparr> continue = Next, hdr_limit = None, hdr_remaining = None,
        hdr_reset = None, hdr_retry_after = None \<rparr>, L)"
  by (simp add: middleware_def)

text \<open>
  Claim C1. Fixed-window rate limiting, as amended. For a fresh key and
  \<open>maxRequests = N \<ge> 1\<close>, with the limiter enabled and every clock value read before the
  reset time of the window that the first call opens: the first \<open>N\<close> calls of \<open>checkLimit\<close>
  return \<open>allowed = true\<close> with \<open>remaining\<close> running from \<open>N - 1\<close> down to \<open>0\<close>; the next
  call returns \<open>allowed = false\<close> with \<open>remaining = 0\<close>, and the middleware answers it with a
  \<open>RateLimitError\<close> and a \<open>Retry-After\<close> value that is positive and at most the window
  length in seconds rounded up to a whole number.
\<close>

theorem fixed_window_allows_N_then_denies:
  assumes fresh: "store L ip = None"
      and N: "1 \<le> maxRequests L"
      and en: "enabled L"
      and key: "getClientIp req = ip"
      and len: "int (length ts) = maxRequests L - 1"
      and win: "\<forall>t\<in>set ts. t < t0 + windowMs L" "t' < t0 + windowMs L"
      and clk: "t0 \<le> now2" "now2 < t0 + windowMs L"
  shows "map allowed (fst (checkLimits (t0 # ts) ip L)) = replicate (nat (maxRequests L)) True \<and>
         map remaining (fst (checkLimits (t0 # ts) ip L)) =
           map (\<lambda>i. maxRequests L - 1 - int i) [0..<nat (maxRequests L)] \<and>
         \<not> allowed (fst (checkLimit t' ip (snd (checkLimits (t0 # ts) ip L)))) \<and>
         remaining (fst (checkLimit t' ip (snd (checkLimits (t0 # ts) ip L)))) = 0 \<and>
         (\<exists>r. continue (fst (middleware t' now2 req (snd (checkLimits (t0 # ts) ip L))))
                = NextRateLimitError r \<and>
              hdr_retry_after (fst (middleware t' now2 req (snd (checkLimits (t0 # ts) ip L))))
                = Some r \<and>
              0 < r \<and> r \<le> ceil_div1000 (windowMs L))"
proof -
  define N where "N = maxRequests L"
  define R where "R = t0 + windowMs L"
  define rec where "rec = \<lparr> count = N, resetTime = R \<rparr>"
  define L' where "L' = L\<lparr> store := (store L)(ip \<mapsto> rec) \<rparr>"
  define infos where "infos = map (\<lambda>i. \<lparr> allowed = (1 + int i \<le> N),
                 remaining = max 0 (N - (1 + int i)),
                 info_resetTime = R \<rparr>) [0..<Suc (length ts)]"
  have cnt: "1 + int (length ts) = N" using len by (simp add: N_def)
  have run: "checkLimits (t0 # ts) ip L = (infos, L')"
    using checkLimits_fresh[OF fresh win(1) N]
    by (simp only: infos_def L'_def rec_def N_def R_def cnt[unfolded N_def])
  have n: "Suc (length ts) = nat N" using cnt N by linarith
  have li: "length infos = nat N" by (simp add: infos_def n del: upt_Suc)
  have "\<forall>x\<in>set [0..<Suc (length ts)]. (1 + int x \<le> N) = True"
    using cnt by auto
  then have a: "map allowed infos = replicate (nat N) True"
    unfolding infos_def map_map o_def limit_info.simps
    using map_const_replicate[of "[0..<Suc (length ts)]" "\<lambda>x. 1 + int x \<le> N" True] n
    by (simp del: upt_Suc)
  have "\<forall>x\<in>set [0..<Suc (length ts)]. max 0 (N - (1 + int x)) = N - 1 - int x"
    using cnt by auto
  then have b: "map remaining infos = map (\<lambda>i. N - 1 - int i) [0..<nat N]"
    unfolding infos_def map_map o_def limit_info.simps n
    by (simp del: upt_Suc)
  have st: "store L' ip = Some rec" by (simp add: L'_def)
  have mx: "maxRequests L' = N" by (simp add: L'_def N_def)
  have rr: "resetTime rec = R" "count rec = N" by (simp_all add: rec_def)
  have c: "fst (checkLimit t' ip L') =
      \<lparr> allowed = (N + 1 \<le> N), remaining = max 0 (N - (N + 1)), info_resetTime = R \<rparr>"
    using checkLimit_in_window[OF st, of t'] win(2) by (simp add: rr mx R_def)
  have d: "fst (middleware t' now2 req L') =
      \<lparr> continue = NextRateLimitError (ceil_div1000 (resetTime rec - now2)),
        hdr_limit = Some (maxRequests L'), hdr_remaining = Some 0,
        hdr_reset = Some (floor_div1000 (resetTime rec)),
        hdr_retry_after = Some (ceil_div1000 (resetTime rec - now2)) \<rparr>"
  proof (rule middleware_denied)
    show "enabled L'" using en by (simp add: L'_def)
    show "0 < maxRequests L'" using N by (simp add: mx N_def)
    show "store L' (getClientIp req) = Some rec" using st key by simp
    show "t' < resetTime rec" using win(2) by (simp add: rr R_def)
    show "maxRequests L' \<le> count rec" by (simp add: rr mx)
  qed
  have e: "0 < ceil_div1000 (R - now2) \<and> ceil_div1000 (R - now2) \<le> ceil_div1000 (windowMs L)"
    by (rule ceil_div1000_bounds) (use clk in \<open>simp_all add: R_def\<close>)
  have c1: "\<not> allowed (fst (checkLimit t' ip L'))" by (simp add: c)
  have c2: "remaining (fst (checkLimit t' ip L')) = 0" by (simp add: c)
  have d1: "continue (fst (middleware t' now2 req L')) = NextRateLimitError (ceil_div1000 (R - now2))"
    by (simp add: d rr)
  have d2: "hdr_retry_after (fst (middleware t' now2 req L')) = Some (ceil_div1000 (R - now2))"
    by (simp add: d rr)
  have f: "\<exists>r. continue (fst (middleware t' now2 req L')) = NextRateLimitError r \<and>
        hdr_retry_after (fst (middleware t' now2 req L')) = Some r \<and>
        0 < r \<and> r \<le> ceil_div1000 (windowMs L)"
    using d1 d2 e by blast
  have r1: "fst (checkLimits (t0 # ts) ip L) = infos" by (simp only: run fst_conv)
  have r2: "snd (checkLimits (t0 # ts) ip L) = L'" by (simp only: run snd_conv)
  show ?thesis
    apply (simp only: r1 r2)
    apply (fold N_def)
    apply (intro conjI)
        apply (rule a)
       apply (rule b)
      apply (rule c1)
     apply (rule c2)
    apply (rule f)
    done
qed

text \<open>Three requests per minute: the fourth request of the window is denied.\<close>

theorem fixed_window_allows_N_then_denies_witness:
  "store limiter_3_per_minute ''203.0.113.1'' = None \<and>
   maxRequests limiter_3_per_minute = 3 \<and>
   map allowed (fst (checkLimits [1000, 1001, 1002] ''203.0.113.1'' limiter_3_per_minute))
     = [True, True, True] \<and>
   map remaining (fst (checkLimits [1000, 1001, 1002] ''203.0.113.1'' limiter_3_per_minute))
     = [2, 1, 0] \<and>
   \<not> allowed (fst (checkLimit 1003 ''203.0.113.1''
        (snd (checkLimits [1000, 1001, 1002] ''203.0.113.1'' limiter_3_per_minute)))) \<and>
   (\<exists>r. continue (fst (middleware 1003 1004 (request_from ''203.0.113.1'')
            (snd (checkLimits [1000, 1001, 1002] ''203.0.113.1'' limiter_3_per_minute))))
          = NextRateLimitError r \<and> 0 < r \<and> r \<le> 60)"
proof -
  have h1: "store limiter_3_per_minute ''203.0.113.1'' = None"
    by (simp add: limiter_3_per_minute_def RateLimiter_def)
  have m: "maxRequests limiter_3_per_minute = 3"
    by (simp add: limiter_3_per_minute_def RateLimiter_def)
  have w: "windowMs limiter_3_per_minute = 60000"
    by (simp add: limiter_3_per_minute_def RateLimiter_def)
  have h2: "1 \<le> maxRequests limiter_3_per_minute" by (simp add: m)
  have h3: "enabled limiter_3_per_minute"
    by (simp add: limiter_3_per_minute_def RateLimiter_def)
  have h4: "getClientIp (request_from ''203.0.113.1'') = ''203.0.113.1''"
    by (simp add: request_from_def getClientIp_def truthy_def)
  have h5: "int (length [1001, 1002 :: int]) = maxRequests limiter_3_per_minute - 1"
    by (simp add: m)
  have h6: "\<forall>t\<in>set [1001, 1002 :: int]. t < 1000 + windowMs limiter_3_per_minute"
    by (simp add: w)
  have h7: "(1003 :: int) < 1000 + windowMs limiter_3_per_minute" by (simp add: w)
  have h8: "(1000 :: int) \<le> 1004" by simp
  have h9: "(1004 :: int) < 1000 + windowMs limiter_3_per_minute" by (simp add: w)
  note T = fixed_window_allows_N_then_denies[OF h1 h2 h3 h4 h5 h6 h7 h8 h9]
  have up: "[0..<nat 3] = [0, 1, 2]" by (simp add: upt_conv_Cons numeral_eq_Suc)
  have c60: "ceil_div1000 60000 = 60" by (simp add: ceil_div1000_def)
  have r3: "replicate (nat 3) True = [True, True, True]" by (simp add: numeral_eq_Suc)
  show ?thesis
    using T h1 unfolding m w up c60 r3 by auto
qed

text \<open>
  The claim as it was stated bounds \<open>Retry-After\<close> by the window length in seconds. With a
  window of 1500 ms and one request allowed, a second request in the same millisecond is
  told to retry after \<open>Math.ceil(1500 / 1000) = 2\<close> seconds, more than the 1.5 seconds of
  the window.
\<close>

theorem retry_after_exceeds_window_counterexample:
  "store limiter_1_per_1500ms ''203.0.113.1'' = None \<and>
   maxRequests limiter_1_per_1500ms = 1 \<and>
   windowMs limiter_1_per_1500ms = 1500 \<and>
   continue (fst (middleware 1000 1000 (request_from ''203.0.113.1'') limiter_1_per_1500ms)) = Next \<and>
   hdr_remaining (fst (middleware 1000 1000 (request_from ''203.0.113.1'') limiter_1_per_1500ms)) = Some 0 \<and>
   continue (fst (middleware 1000 1000 (request_from ''203.0.113.1'')
       (snd (middleware 1000 1000 (request_from ''203.0.113.1'') limiter_1_per_1500ms))))
     = NextRateLimitError 2 \<and>
   2 * 1000 > windowMs limiter_1_per_1500ms"
proof -
  let ?L = "limiter_1_per_1500ms"
  let ?req = "request_from ''203.0.113.1''"
  let ?L1 = "?L\<lparr> store := (store ?L)(''203.0.113.1'' \<mapsto> \<lparr> count = 1, resetTime = 2500 \<rparr>) \<rparr>"
  have s0: "store ?L ''203.0.113.1'' = None"
    by (simp add: limiter_1_per_1500ms_def RateLimiter_def)
  have m: "maxRequests ?L = 1" by (simp add: limiter_1_per_1500ms_def RateLimiter_def)
  have w: "windowMs ?L = 1500" by (simp add: limiter_1_per_1500ms_def RateLimiter_def)
  have en: "enabled ?L" by (simp add: limiter_1_per_1500ms_def RateLimiter_def)
  have k: "getClientIp ?req = ''203.0.113.1''"
    by (simp add: request_from_def getClientIp_def truthy_def)
  have c1: "checkLimit 1000 ''203.0.113.1'' ?L =
              (\<lparr> allowed = True, remaining = 0, info_resetTime = 2500 \<rparr>, ?L1)"
    by (simp add: checkLimit_fresh[OF s0] m w)
  have m1: "middleware 1000 1000 ?req ?L =
      (\<lparr> continue = Next, hdr_limit = Some 1, hdr_remaining = Some 0,
         hdr_reset = Some 2, hdr_retry_after = None \<rparr>, ?L1)"
    by (simp add: middleware_def en m k c1 floor_div1000_def)
  have m2: "fst (middleware 1000 1000 ?req ?L1) =
      \<lparr> continue = NextRateLimitError (ceil_div1000 (2500 - 1000)),
        hdr_limit = Some 1, hdr_remaining = Some 0,
        hdr_reset = Some (floor_div1000 2500),
        hdr_retry_after = Some (ceil_div1000 (2500 - 1000)) \<rparr>"
    using middleware_denied[of ?L1 ?req "\<lparr> count = 1, resetTime = 2500 \<rparr>" 1000 1000]
    by (simp add: en m k)
  have c: "ceil_div1000 1500 = 2" by (simp add: ceil_div1000_def)
  show ?thesis
    by (simp add: s0 m w m1 m2 c)
qed

text \<open>
  Claim C8. Disabled-limiter passthrough. When the limiter is disabled, or its
  \<open>maxRequests\<close> is \<open>0\<close>, the middleware continues every request with \<open>next()\<close> and no
  error, for any requests (any keys), any number of them and any clock values, and the
  limiter is left as it was.
\<close>

theorem disabled_limiter_passthrough:
  "\<not> enabled L \<or> maxRequests L = 0 \<Longrightarrow>
   map continue (fst (middlewares rs L)) = replicate (length rs) Next \<and>
   snd (middlewares rs L) = L"
proof (induction rs)
  case Nil
  show ?case by simp
next
  case (Cons r rs)
  obtain now now2 req where r: "r = (now, now2, req)" by (cases r) auto
  have "middleware now now2 req L =
     (\<lparr> continue = Next, hdr_limit = None, hdr_remaining = None,
        hdr_reset = None, hdr_retry_after = None \<rparr>, L)"
    using Cons.prems by (intro middleware_disabled) auto
  then show ?case using Cons r by (simp add: split_beta)
qed

text \<open>Three requests of one client through a limiter with \<open>maxRequests = 0\<close>.\<close>

theorem disabled_limiter_passthrough_witness:
  "maxRequests limiter_max_0 = 0 \<and> enabled limiter_max_0 \<and>
   map continue (fst (middlewares
      [(1000, 1000, request_from ''192.168.1.1''), (1001, 1001, request_from ''192.168.1.1''),
       (1002, 1002, request_from ''192.168.1.1'')] limiter_max_0)) = [Next, Next, Next]"
  using disabled_limiter_passthrough[of limiter_max_0
      "[(1000, 1000, request_from ''192.168.1.1''), (1001, 1001, request_from ''192.168.1.1''),
       (1002, 1002, request_from ''192.168.1.1'')]"]
  by (simp add: limiter_max_0_def RateLimiter_def)

section \<open>Properties of recording a click\<close>

lemma store_call_cases:
  "store_call c w = (f, w') \<Longrightarrow>
     urls w' = urls w \<and> events w' = events w \<and> console w' = console w \<and>
     calls w' = calls w @ [c] \<and>
     ((faults w = [] \<and> f = None \<and> faults w' = []) \<or> (faults w = f # faults w'))"
  by (auto simp: store_call_def split: list.splits)

lemma update_attempt_cases:
  assumes "link_doc code w = Some d" "update_attempt rt code cd w = (r, w')"
  shows "events w' = events w \<and> console w' = console w \<and>
         ((\<exists>e. r = Inl e \<and> urls w' = urls w) \<or>
          (r = Inr () \<and>
           urls w' = replace_doc (saved_doc rt cd
               (remdups (map ev_anonymizedIp (link_events code w))) d) (urls w)))"
  using assms
  by (auto simp: update_attempt_def Url_findOne_def ClickEvent_distinct_def Url_save_def
      store_call_def link_doc_def link_events_def saved_doc_def Let_def
      split: list.splits option.splits if_splits)


lemma update_attempt_saves:
  "update_attempt rt code cd w = (r, w') \<Longrightarrow> url_saves w' \<le> url_saves w + 1"
  by (auto simp: update_attempt_def Url_findOne_def ClickEvent_distinct_def Url_save_def
      store_call_def url_saves_def Let_def
      split: list.splits option.splits if_splits)

lemma updateAggregatedStats_cases:
  assumes "link_doc code w = Some d" "updateAggregatedStats rt code cd w = (r, w')"
  shows "events w' = events w \<and> console w' = console w \<and>
         ((\<exists>e. r = Inl e \<and> urls w' = urls w) \<or>
          (r = Inr () \<and>
           urls w' = replace_doc (saved_doc rt cd
               (remdups (map ev_anonymizedIp (link_events code w))) d) (urls w)))"
proof -
  obtain r1 w1 where a1: "update_attempt rt code cd w = (r1, w1)"
    by (cases "update_attempt rt code cd w") auto
  note c1 = update_attempt_cases[OF assms(1) a1]
  show ?thesis
  proof (cases "r1 = Inl VersionError")
    case False
    then have "updateAggregatedStats rt code cd w = (r1, w1)"
      using a1 by (auto simp: updateAggregatedStats_def split: sum.splits)
    then show ?thesis using c1 assms(2) by auto
  next
    case True
    then have u: "urls w1 = urls w" "events w1 = events w" "console w1 = console w"
      using c1 by auto
    have l1: "link_doc code w1 = Some d" using assms(1) u by (simp add: link_doc_def)
    have "updateAggregatedStats rt code cd w = update_attempt rt code cd w1"
      using a1 True by (simp add: updateAggregatedStats_def)
    then have a2: "update_attempt rt code cd w1 = (r, w')" using assms(2) by simp
    have le: "link_events code w1 = link_events code w" using u by (simp add: link_events_def)
    show ?thesis using update_attempt_cases[OF l1 a2] u le by auto
  qed
qed

lemma updateAggregatedStats_saves:
  assumes "updateAggregatedStats rt code cd w = (r, w')"
  shows "url_saves w' \<le> url_saves w + 2"
proof -
  obtain r1 w1 where a1: "update_attempt rt code cd w = (r1, w1)"
    by (cases "update_attempt rt code cd w") auto
  note s1 = update_attempt_saves[OF a1]
  show ?thesis
  proof (cases "r1 = Inl VersionError")
    case False
    then have "updateAggregatedStats rt code cd w = (r1, w1)"
      using a1 by (auto simp: updateAggregatedStats_def split: sum.splits)
    then show ?thesis using s1 assms by auto
  next
    case True
    have "updateAggregatedStats rt code cd w = update_attempt rt code cd w1"
      using a1 True by (simp add: updateAggregatedStats_def)
    then have a2: "update_attempt rt code cd w1 = (r, w')" using assms by simp
    show ?thesis using update_attempt_saves[OF a2] s1 by linarith
  qed
qed

lemma recordClick_try_cases:
  assumes "link_doc code w = Some d" "recordClick_try rt now code data w = (r, w')"
  shows "console w' = console w \<and>
         ((\<exists>e. r = Inl e \<and> urls w' = urls w \<and>
               (events w' = events w \<or>
                (\<exists>ev. events w' = events w @ [ev] \<and> ev_shortCode ev = code \<and>
                      ev_anonymizedIp ev = masked_address data))) \<or>
          (r = Inr () \<and> data \<noteq> None \<and>
           (\<exists>ev cd. events w' = events w @ [ev] \<and> ev_shortCode ev = code \<and>
                 ev_timestamp ev = now \<and> cd_timestamp cd = now \<and>
                 ev_anonymizedIp ev = masked_address data \<and>
                 urls w' = replace_doc (saved_doc rt cd
                   (remdups (map ev_anonymizedIp (link_events code w @ [ev]))) d) (urls w))))"
proof -
  obtain f w1 where sc: "store_call Url_findOne_call w = (f, w1)"
    by (cases "store_call Url_findOne_call w") auto
  note k1 = store_call_cases[OF sc]
  show ?thesis
  proof (cases f)
    case (Some e)
    then have "recordClick_try rt now code data w = (Inl e, w1)"
      using sc by (simp add: recordClick_try_def Url_findOne_def)
    then show ?thesis using assms(2) k1 by auto
  next
    case None
    then have fo: "Url_findOne code w = (Inr (Some d), w1)"
      using sc k1 assms(1) by (simp add: Url_findOne_def link_doc_def)
    show ?thesis
    proof (cases data)
      case None
      then have "recordClick_try rt now code data w = (Inl TypeError, w1)"
        using fo by (simp add: recordClick_try_def)
      then show ?thesis using assms(2) k1 by auto
    next
      case (Some dat)
      define ev where "ev = \<lparr> ev_shortCode = code, ev_timestamp = now,
           ev_anonymizedIp = anonymizeIp (data_ip dat),
           ev_browser = parseBrowser (or_empty (data_userAgent dat)),
           ev_os = parseOs (or_empty (data_userAgent dat)),
           ev_referrer = extractReferrer rt (or_empty (data_referrer dat)) \<rparr>"
      define cd where "cd = \<lparr> cd_anonymizedIp = anonymizeIp (data_ip dat),
           cd_referrer = extractReferrer rt (or_empty (data_referrer dat)),
           cd_timestamp = now \<rparr>"
      have evp: "ev_shortCode ev = code" "ev_timestamp ev = now"
           "ev_anonymizedIp ev = masked_address data"
        using Some by (simp_all add: ev_def masked_address_def)
      obtain f2 w2 where sc2: "store_call ClickEvent_save_call w1 = (f2, w2)"
        by (cases "store_call ClickEvent_save_call w1") auto
      note k2 = store_call_cases[OF sc2]
      have body: "recordClick_try rt now code data w =
         (case ClickEvent_save ev w1 of
            (Inl e, w2) \<Rightarrow> (Inl e, w2)
          | (Inr u, w2) \<Rightarrow> updateAggregatedStats rt code cd w2)"
        using fo Some
        by (simp add: recordClick_try_def parseUserAgent_def ev_def cd_def Let_def
            split: prod.splits sum.splits)
      show ?thesis
      proof (cases f2)
        case (Some e)
        then have "recordClick_try rt now code data w = (Inl e, w2)"
          using body sc2 by (simp add: ClickEvent_save_def)
        then show ?thesis using assms(2) k1 k2 by auto
      next
        case None
        define w3 where "w3 = w2\<lparr> events := events w2 @ [ev] \<rparr>"
        have b2: "recordClick_try rt now code data w = updateAggregatedStats rt code cd w3"
          using body sc2 None by (simp add: ClickEvent_save_def w3_def)
        then have ua: "updateAggregatedStats rt code cd w3 = (r, w')" using assms(2) by simp
        have w3p: "urls w3 = urls w" "events w3 = events w @ [ev]" "console w3 = console w"
          using k1 k2 by (simp_all add: w3_def)
        have l3: "link_doc code w3 = Some d" using assms(1) w3p by (simp add: link_doc_def)
        have le3: "link_events code w3 = link_events code w @ [ev]"
          using w3p evp by (simp add: link_events_def)
        note U = updateAggregatedStats_cases[OF l3 ua]
        have cdt: "cd_timestamp cd = now" by (simp add: cd_def)
        show ?thesis
          using U w3p le3 evp cdt Some \<open>data = Some dat\<close> by auto
      qed
    qed
  qed
qed


lemma saved_doc_fields:
  "shortCode (saved_doc rt cd ips d) = shortCode d"
  "totalClicks (saved_doc rt cd ips d) = totalClicks d + 1"
  "uniqueVisitors (saved_doc rt cd ips d) = length ips"
  "lastClickAt (saved_doc rt cd ips d) = Some (cd_timestamp cd)"
  "isActive (saved_doc rt cd ips d) = isActive d"
  by (simp_all add: saved_doc_def updateClicksByDay_def updateTopReferrers_def Let_def)

lemma find_replace_doc:
  "find (\<lambda>x. shortCode x = code) us = Some d \<Longrightarrow> shortCode d' = code \<Longrightarrow>
   find (\<lambda>x. shortCode x = code) (replace_doc d' us) = Some d'"
  by (induction us) (auto split: if_splits)

lemma find_shortCode: "find (\<lambda>x. shortCode x = code) us = Some d \<Longrightarrow> shortCode d = code"
  by (induction us) (auto split: if_splits)

lemma recordClick_result:
  "fst (recordClick rt now code data w) = Inr ()"
  by (auto simp: recordClick_def split: prod.splits sum.splits)

lemma recordClick_console:
  "recordClick rt now code data w = (r, w') \<Longrightarrow>
   recordClick_try rt now code data w = (r0, w0) \<Longrightarrow>
   console w' = (case r0 of Inl e \<Rightarrow> console w0 @ [e] | Inr u \<Rightarrow> console w0) \<and>
   urls w' = urls w0 \<and> events w' = events w0 \<and> calls w' = calls w0 \<and> faults w' = faults w0"
  by (auto simp: recordClick_def split: prod.splits sum.splits)

lemma recordClick_try_Inr:
  assumes "link_doc code w = Some d" "recordClick_try rt now code data w = (Inr (), w')"
  shows "\<exists>ev cd. events w' = events w @ [ev] \<and> ev_shortCode ev = code \<and>
                 ev_timestamp ev = now \<and> cd_timestamp cd = now \<and>
                 ev_anonymizedIp ev = masked_address data \<and>
                 urls w' = replace_doc (saved_doc rt cd
                   (remdups (map ev_anonymizedIp (link_events code w @ [ev]))) d) (urls w)"
proof -
  note C = recordClick_try_cases[OF assms]
  then have "(\<exists>e. (Inr () :: error + unit) = Inl e \<and> urls w' = urls w \<and>
               (events w' = events w \<or>
                (\<exists>ev. events w' = events w @ [ev] \<and> ev_shortCode ev = code \<and>
                      ev_anonymizedIp ev = masked_address data))) \<or>
          ((Inr () :: error + unit) = Inr () \<and> data \<noteq> None \<and>
           (\<exists>ev cd. events w' = events w @ [ev] \<and> ev_shortCode ev = code \<and>
                 ev_timestamp ev = now \<and> cd_timestamp cd = now \<and>
                 ev_anonymizedIp ev = masked_address data \<and>
                 urls w' = replace_doc (saved_doc rt cd
                   (remdups (map ev_anonymizedIp (link_events code w @ [ev]))) d) (urls w)))"
    by (rule conjunct2)
  then show ?thesis
  proof (elim disjE)
    assume "\<exists>e. (Inr () :: error + unit) = Inl e \<and> urls w' = urls w \<and>
               (events w' = events w \<or>
                (\<exists>ev. events w' = events w @ [ev] \<and> ev_shortCode ev = code \<and>
                      ev_anonymizedIp ev = masked_address data))"
    then have False by simp
    then show ?thesis ..
  next
    assume "(Inr () :: error + unit) = Inr () \<and> data \<noteq> None \<and>
           (\<exists>ev cd. events w' = events w @ [ev] \<and> ev_shortCode ev = code \<and>
                 ev_timestamp ev = now \<and> cd_timestamp cd = now \<and>
                 ev_anonymizedIp ev = masked_address data \<and>
                 urls w' = replace_doc (saved_doc rt cd
                   (remdups (map ev_anonymizedIp (link_events code w @ [ev]))) d) (urls w))"
    then show ?thesis by (elim conjE)
  qed
qed


lemma recordClick_try_console:
  assumes "link_doc code w = Some d" "recordClick_try rt now code data w = (r, w')"
  shows "console w' = console w"
  using recordClick_try_cases[OF assms] by (rule conjunct1)

lemma recordClick_success:
  assumes link: "link_doc code w = Some d"
      and ok: "console (snd (recordClick rt now code data w)) = console w"
  shows "\<exists>d' ev. link_doc code (snd (recordClick rt now code data w)) = Some d' \<and>
           totalClicks d' = totalClicks d + 1 \<and>
           uniqueVisitors d' = distinct_visitors code (snd (recordClick rt now code data w)) \<and>
           lastClickAt d' = Some now \<and>
           events (snd (recordClick rt now code data w)) = events w @ [ev] \<and>
           ev_shortCode ev = code \<and> ev_timestamp ev = now \<and>
           ev_anonymizedIp ev = masked_address data"
proof -
  obtain r0 w0 where t: "recordClick_try rt now code data w = (r0, w0)"
    by (cases "recordClick_try rt now code data w") auto
  obtain r w' where rc: "recordClick rt now code data w = (r, w')"
    by (cases "recordClick rt now code data w") auto
  have c0: "console w0 = console w" by (rule recordClick_try_console[OF link t])
  note K = recordClick_console[OF rc t]
  have w': "snd (recordClick rt now code data w) = w'" using rc by simp
  have r0: "r0 = Inr ()"
  proof (cases r0)
    case (Inl e)
    then have "console w' = console w @ [e]" using K c0 by simp
    then show ?thesis using ok w' by simp
  next
    case (Inr u)
    then show ?thesis by simp
  qed
  have t': "recordClick_try rt now code data w = (Inr (), w0)" using t r0 by simp
  from recordClick_try_Inr[OF link t']
  obtain ev where "\<exists>cd. events w0 = events w @ [ev] \<and> ev_shortCode ev = code \<and>
                 ev_timestamp ev = now \<and> cd_timestamp cd = now \<and>
                 ev_anonymizedIp ev = masked_address data \<and>
                 urls w0 = replace_doc (saved_doc rt cd
                   (remdups (map ev_anonymizedIp (link_events code w @ [ev]))) d) (urls w)" ..
  then obtain cd where E: "events w0 = events w @ [ev] \<and> ev_shortCode ev = code \<and>
                 ev_timestamp ev = now \<and> cd_timestamp cd = now \<and>
                 ev_anonymizedIp ev = masked_address data \<and>
                 urls w0 = replace_doc (saved_doc rt cd
                   (remdups (map ev_anonymizedIp (link_events code w @ [ev]))) d) (urls w)" ..
  note E1 = E[THEN conjunct1]
  note E2 = E[THEN conjunct2, THEN conjunct1]
  note E3 = E[THEN conjunct2, THEN conjunct2, THEN conjunct1]
  note E4 = E[THEN conjunct2, THEN conjunct2, THEN conjunct2, THEN conjunct1]
  note E5 = E[THEN conjunct2, THEN conjunct2, THEN conjunct2, THEN conjunct2, THEN conjunct1]
  note E6 = E[THEN conjunct2, THEN conjunct2, THEN conjunct2, THEN conjunct2, THEN conjunct2]
  define d' where "d' = saved_doc rt cd (remdups (map ev_anonymizedIp (link_events code w @ [ev]))) d"
  have f: "find (\<lambda>x. shortCode x = code) (urls w) = Some d" using link by (simp add: link_doc_def)
  have sd: "shortCode d = code" by (rule find_shortCode[OF f])
  have sc: "shortCode d' = code" using sd by (simp add: d'_def saved_doc_fields)
  have u': "urls w' = replace_doc d' (urls w)" using K E6 by (simp add: d'_def)
  have l': "link_doc code w' = Some d'"
    unfolding link_doc_def u' by (rule find_replace_doc[OF f sc])
  have ev': "events w' = events w @ [ev]" using K E1 by simp
  have le: "link_events code w' = link_events code w @ [ev]"
    using ev' E2 by (simp add: link_events_def)
  have uv: "uniqueVisitors d' = distinct_visitors code w'"
    by (simp add: d'_def saved_doc_fields distinct_visitors_def le)
  have tc: "totalClicks d' = totalClicks d + 1" by (simp add: d'_def saved_doc_fields)
  have lc: "lastClickAt d' = Some now" by (simp add: d'_def saved_doc_fields E4)
  show ?thesis
    unfolding w'
    apply (rule exI[of _ d'])
    apply (rule exI[of _ ev])
    apply (intro conjI)
           apply (rule l')
          apply (rule tc)
         apply (rule uv)
        apply (rule lc)
       apply (rule ev')
      apply (rule E2)
     apply (rule E3)
    apply (rule E5)
    done
qed


lemma update_attempt_console:
  "update_attempt rt code cd w = (r, w') \<Longrightarrow> console w' = console w"
  by (auto simp: update_attempt_def Url_findOne_def ClickEvent_distinct_def Url_save_def
      store_call_def Let_def split: list.splits option.splits if_splits)

lemma updateAggregatedStats_console:
  assumes "updateAggregatedStats rt code cd w = (r, w')"
  shows "console w' = console w"
proof -
  obtain r1 w1 where a1: "update_attempt rt code cd w = (r1, w1)"
    by (cases "update_attempt rt code cd w") auto
  have c1: "console w1 = console w" by (rule update_attempt_console[OF a1])
  show ?thesis
  proof (cases "r1 = Inl VersionError")
    case False
    then have "updateAggregatedStats rt code cd w = (r1, w1)"
      using a1 by (auto simp: updateAggregatedStats_def split: sum.splits)
    then show ?thesis using c1 assms by simp
  next
    case True
    have "updateAggregatedStats rt code cd w = update_attempt rt code cd w1"
      using a1 True by (simp add: updateAggregatedStats_def)
    then have a2: "update_attempt rt code cd w1 = (r, w')" using assms by simp
    show ?thesis using update_attempt_console[OF a2] c1 by simp
  qed
qed

lemma recordClick_try_console_any:
  assumes "recordClick_try rt now code data w = (r, w')"
  shows "console w' = console w"
proof (cases "link_doc code w")
  case (Some d)
  then show ?thesis using assms by (rule recordClick_try_console)
next
  case None
  then show ?thesis using assms
    by (auto simp: recordClick_try_def Url_findOne_def store_call_def link_doc_def
        split: list.splits option.splits)
qed

lemma recordClick_console_step:
  "console (snd (recordClick rt now code data w)) = console w \<or>
   (\<exists>e. console (snd (recordClick rt now code data w)) = console w @ [e])"
proof -
  obtain r0 w0 where t: "recordClick_try rt now code data w = (r0, w0)"
    by (cases "recordClick_try rt now code data w") auto
  have c0: "console w0 = console w" by (rule recordClick_try_console_any[OF t])
  show ?thesis
    using t c0 by (cases r0) (simp_all add: recordClick_def)
qed

lemma recordClicks_console_length:
  "length (console w) \<le> length (console (recordClicks rt code inputs w))"
proof (induction inputs arbitrary: w)
  case Nil
  show ?case by simp
next
  case (Cons i inputs)
  obtain now data where i: "i = (now, data)" by (cases i) auto
  have "length (console w) \<le> length (console (snd (recordClick rt now code data w)))"
    using recordClick_console_step[of rt now code data w] by auto
  also have "\<dots> \<le> length (console (recordClicks rt code inputs (snd (recordClick rt now code data w))))"
    by (rule Cons.IH)
  finally show ?case by (simp add: i)
qed

lemma recordClicks_success:
  assumes "link_doc code w = Some d"
      and "console (recordClicks rt code inputs w) = console w"
  shows "\<exists>d'. link_doc code (recordClicks rt code inputs w) = Some d' \<and>
           totalClicks d' = totalClicks d + length inputs \<and>
           (inputs \<noteq> [] \<longrightarrow>
              uniqueVisitors d' = distinct_visitors code (recordClicks rt code inputs w)) \<and>
           map ev_anonymizedIp (link_events code (recordClicks rt code inputs w)) =
             map ev_anonymizedIp (link_events code w) @ map (\<lambda>i. masked_address (snd i)) inputs"
  using assms
proof (induction inputs arbitrary: w d)
  case Nil
  then show ?case by simp
next
  case (Cons i inputs)
  obtain now data where i: "i = (now, data)" by (cases i) auto
  define w1 where "w1 = snd (recordClick rt now code data w)"
  have fin: "recordClicks rt code (i # inputs) w = recordClicks rt code inputs w1"
    by (simp add: i w1_def)
  have len: "length (console w1) \<le> length (console w)"
    using recordClicks_console_length[of w1 rt code inputs] Cons.prems(2) fin by simp
  have c1: "console w1 = console w"
    using recordClick_console_step[of rt now code data w] len by (auto simp: w1_def)
  from recordClick_success[OF Cons.prems(1) c1[unfolded w1_def]]
  obtain d1 where "\<exists>ev. link_doc code w1 = Some d1 \<and>
           totalClicks d1 = totalClicks d + 1 \<and>
           uniqueVisitors d1 = distinct_visitors code w1 \<and>
           lastClickAt d1 = Some now \<and>
           events w1 = events w @ [ev] \<and>
           ev_shortCode ev = code \<and> ev_timestamp ev = now \<and>
           ev_anonymizedIp ev = masked_address data"
    unfolding w1_def ..
  then obtain ev where S: "link_doc code w1 = Some d1 \<and>
           totalClicks d1 = totalClicks d + 1 \<and>
           uniqueVisitors d1 = distinct_visitors code w1 \<and>
           lastClickAt d1 = Some now \<and>
           events w1 = events w @ [ev] \<and>
           ev_shortCode ev = code \<and> ev_timestamp ev = now \<and>
           ev_anonymizedIp ev = masked_address data" ..
  note S1 = S[THEN conjunct1]
  note S2 = S[THEN conjunct2, THEN conjunct1]
  note S3 = S[THEN conjunct2, THEN conjunct2, THEN conjunct1]
  note S5 = S[THEN conjunct2, THEN conjunct2, THEN conjunct2, THEN conjunct2, THEN conjunct1]
  note S6 = S[THEN conjunct2, THEN conjunct2, THEN conjunct2, THEN conjunct2, THEN conjunct2,
              THEN conjunct1]
  note S8 = S[THEN conjunct2, THEN conjunct2, THEN conjunct2, THEN conjunct2, THEN conjunct2,
              THEN conjunct2, THEN conjunct2]
  have c2: "console (recordClicks rt code inputs w1) = console w1"
    using Cons.prems(2) fin c1 by simp
  from Cons.IH[OF S1 c2]
  obtain d' where I: "link_doc code (recordClicks rt code inputs w1) = Some d' \<and>
           totalClicks d' = totalClicks d1 + length inputs \<and>
           (inputs \<noteq> [] \<longrightarrow>
              uniqueVisitors d' = distinct_visitors code (recordClicks rt code inputs w1)) \<and>
           map ev_anonymizedIp (link_events code (recordClicks rt code inputs w1)) =
             map ev_anonymizedIp (link_events code w1) @ map (\<lambda>i. masked_address (snd i)) inputs" ..
  note I1 = I[THEN conjunct1]
  note I2 = I[THEN conjunct2, THEN conjunct1]
  note I3 = I[THEN conjunct2, THEN conjunct2, THEN conjunct1]
  note I4 = I[THEN conjunct2, THEN conjunct2, THEN conjunct2]
  have le1: "link_events code w1 = link_events code w @ [ev]"
    using S5 S6 by (simp add: link_events_def)
  have t: "totalClicks d' = totalClicks d + length (i # inputs)"
    using I2 S2 by simp
  have u: "i # inputs \<noteq> [] \<longrightarrow>
              uniqueVisitors d' = distinct_visitors code (recordClicks rt code inputs w1)"
  proof (cases "inputs = []")
    case True
    then have "d' = d1" using I1 S1 by simp
    then show ?thesis using S3 True by simp
  next
    case False
    then show ?thesis using I3 by simp
  qed
  have m: "map ev_anonymizedIp (link_events code (recordClicks rt code inputs w1)) =
             map ev_anonymizedIp (link_events code w) @ map (\<lambda>i. masked_address (snd i)) (i # inputs)"
    using I4 le1 S8 by (simp add: i)
  show ?case
    unfolding fin
    apply (rule exI[of _ d'])
    apply (intro conjI)
       apply (rule I1)
      apply (rule t)
     apply (rule u)
    apply (rule m)
    done
qed

text \<open>
  Claim C2. Aggregate postconditions of \<open>recordClick\<close>. A call is successful when it writes
  nothing to the console: no store call and no validation failed, a version conflict that
  the retry overcame apart. For an existing link and any \<open>N\<close> successive successful calls,
  \<open>totalClicks\<close> has grown by exactly \<open>N\<close> (by one with each call), and after the last update
  \<open>uniqueVisitors\<close> is the number of distinct masked addresses among all the events of the
  link, the events being those present before followed by one event per call with the
  masked address of its input. In particular, for a link without events and with
  \<open>totalClicks = 0\<close>, calls whose addresses mask to \<open>[a, a, b]\<close> with \<open>a \<noteq> b\<close> give
  \<open>uniqueVisitors = 2\<close> and \<open>totalClicks = 3\<close>.
\<close>

theorem recordClick_aggregate_postconditions:
  assumes link: "link_doc code w = Some d"
      and ok: "console (recordClicks rt code inputs w) = console w"
  shows "\<exists>d'. link_doc code (recordClicks rt code inputs w) = Some d' \<and>
           totalClicks d' = totalClicks d + length inputs \<and>
           (inputs \<noteq> [] \<longrightarrow>
              uniqueVisitors d' = distinct_visitors code (recordClicks rt code inputs w)) \<and>
           map ev_anonymizedIp (link_events code (recordClicks rt code inputs w)) =
             map ev_anonymizedIp (link_events code w) @ map (\<lambda>i. masked_address (snd i)) inputs \<and>
           (link_events code w = [] \<and> totalClicks d = 0 \<and> a \<noteq> b \<and>
            map (\<lambda>i. masked_address (snd i)) inputs = [a, a, b] \<longrightarrow>
              uniqueVisitors d' = 2 \<and> totalClicks d' = 3)"
proof -
  from recordClicks_success[OF link ok]
  obtain d' where I: "link_doc code (recordClicks rt code inputs w) = Some d' \<and>
           totalClicks d' = totalClicks d + length inputs \<and>
           (inputs \<noteq> [] \<longrightarrow>
              uniqueVisitors d' = distinct_visitors code (recordClicks rt code inputs w)) \<and>
           map ev_anonymizedIp (link_events code (recordClicks rt code inputs w)) =
             map ev_anonymizedIp (link_events code w) @ map (\<lambda>i. masked_address (snd i)) inputs" ..
  note I1 = I[THEN conjunct1]
  note I2 = I[THEN conjunct2, THEN conjunct1]
  note I3 = I[THEN conjunct2, THEN conjunct2, THEN conjunct1]
  note I4 = I[THEN conjunct2, THEN conjunct2, THEN conjunct2]
  have aab: "uniqueVisitors d' = 2 \<and> totalClicks d' = 3"
    if h: "link_events code w = [] \<and> totalClicks d = 0 \<and> a \<noteq> b \<and>
           map (\<lambda>i. masked_address (snd i)) inputs = [a, a, b]"
  proof -
    have m: "map (\<lambda>i. masked_address (snd i)) inputs = [a, a, b]" using h by simp
    have "length (map (\<lambda>i. masked_address (snd i)) inputs) = 3" unfolding m by simp
    then have l3: "length inputs = 3" by simp
    then have ne: "inputs \<noteq> []" by auto
    have "map ev_anonymizedIp (link_events code (recordClicks rt code inputs w)) = [a, a, b]"
      using I4 h by simp
    then have "distinct_visitors code (recordClicks rt code inputs w) = length (remdups [a, a, b])"
      by (simp add: distinct_visitors_def)
    also have "\<dots> = 2" using h by simp
    finally have "uniqueVisitors d' = 2" using I3 ne by simp
    moreover have "totalClicks d' = 3" using I2 l3 h by simp
    ultimately show ?thesis by simp
  qed
  show ?thesis
    apply (rule exI[of _ d'])
    apply (intro conjI impI)
         apply (rule I1)
        apply (rule I2)
       apply (erule I3[rule_format])
      apply (rule I4)
     apply (erule aab[THEN conjunct1])
    apply (erule aab[THEN conjunct2])
    done
qed

text \<open>Three clicks on a new link, from 10.0.0.1, 10.0.0.2 and 192.168.5.9.\<close>

theorem recordClick_aggregate_postconditions_witness:
  "link_doc ''abc'' world_with_link = Some (new_url_doc ''abc'' ''https://example.com/page'' 1700000000000) \<and>
   console (recordClicks utc_runtime ''abc'' three_clicks world_with_link) = console world_with_link \<and>
   map (\<lambda>i. masked_address (snd i)) three_clicks = [''10.0.0.xxx'', ''10.0.0.xxx'', ''192.168.5.xxx''] \<and>
   (\<exists>d'. link_doc ''abc'' (recordClicks utc_runtime ''abc'' three_clicks world_with_link) = Some d' \<and>
         uniqueVisitors d' = 2 \<and> totalClicks d' = 3)"
proof -
  have ex1: "console (recordClicks utc_runtime ''abc'' three_clicks world_with_link) = console world_with_link"
    by code_simp
  have ex2: "link_doc ''abc'' world_with_link = Some (new_url_doc ''abc'' ''https://example.com/page'' 1700000000000)"
    by code_simp
  have ex3: "map (\<lambda>i. masked_address (snd i)) three_clicks = [''10.0.0.xxx'', ''10.0.0.xxx'', ''192.168.5.xxx'']"
    by code_simp
  have ex4: "link_events ''abc'' world_with_link = []" by code_simp
  have ex5: "totalClicks (new_url_doc ''abc'' ''https://example.com/page'' 1700000000000) = 0"
    by (simp add: new_url_doc_def)
  have ex6: "''10.0.0.xxx'' \<noteq> ''192.168.5.xxx''" by simp
  from recordClick_aggregate_postconditions[OF ex2 ex1, of "''10.0.0.xxx''" "''192.168.5.xxx''"]
  obtain d' where D: "link_doc ''abc'' (recordClicks utc_runtime ''abc'' three_clicks world_with_link) = Some d'"
    and R: "link_events ''abc'' world_with_link = [] \<and>
            totalClicks (new_url_doc ''abc'' ''https://example.com/page'' 1700000000000) = 0 \<and>
            ''10.0.0.xxx'' \<noteq> ''192.168.5.xxx'' \<and>
            map (\<lambda>i. masked_address (snd i)) three_clicks = [''10.0.0.xxx'', ''10.0.0.xxx'', ''192.168.5.xxx''] \<longrightarrow>
              uniqueVisitors d' = 2 \<and> totalClicks d' = 3"
    by blast
  have "uniqueVisitors d' = 2 \<and> totalClicks d' = 3"
    using R ex3 ex4 ex5 ex6 by blast
  then show ?thesis using ex1 ex2 ex3 D by blast
qed

section \<open>Properties of the per-link query\<close>

lemma recordClick_unknown_link:
  assumes "link_doc code w = None"
  shows "urls (snd (recordClick rt now code data w)) = urls w \<and>
         events (snd (recordClick rt now code data w)) = events w"
  using assms
  by (auto simp: recordClick_def recordClick_try_def Url_findOne_def store_call_def link_doc_def
      split: list.splits option.splits)

lemma getUrlAnalytics_unknown_link:
  assumes "link_doc code w = None"
  shows "fst (getUrlAnalytics code options w) =
           (case faults w of Some e # fs \<Rightarrow> Inl e | _ \<Rightarrow> Inr None)"
  using assms
  by (auto simp: getUrlAnalytics_def Url_findOne_def store_call_def link_doc_def
      split: list.splits option.splits)

lemma recordClick_try_unknown_link:
  assumes "link_doc code w = None"
  shows "fst (recordClick_try rt now code data w) =
           (case faults w of Some e # fs \<Rightarrow> Inl e | _ \<Rightarrow> Inr ()) \<and>
         console (snd (recordClick_try rt now code data w)) = console w \<and>
         calls (snd (recordClick_try rt now code data w)) = calls w @ [Url_findOne_call]"
  using assms
  by (auto simp: recordClick_try_def Url_findOne_def store_call_def link_doc_def
      split: list.splits option.splits)

lemma recordClick_unknown_link_log:
  assumes "link_doc code w = None"
  shows "console (snd (recordClick rt now code data w)) =
           (case faults w of Some e # fs \<Rightarrow> console w @ [e] | _ \<Rightarrow> console w) \<and>
         calls (snd (recordClick rt now code data w)) = calls w @ [Url_findOne_call]"
  using assms
  by (auto simp: recordClick_def recordClick_try_def Url_findOne_def store_call_def link_doc_def
      split: list.splits option.splits)

text \<open>
  Claim C4. Unknown-link handling. For a short code that no document has, the body
  of \<open>recordClick\<close> issues the lookup and no other store call. When the lookup
  succeeds the body returns at once without raising anything, so nothing is written to
  the console: a silent no-op, not an error that is caught. (When the lookup itself fails,
  the store's error is caught and logged.) In either case \<open>recordClick\<close> returns
  normally and both collections are as they were: no event appended, no document changed.
  \<open>getUrlAnalytics\<close> returns \<open>null\<close> when its lookup succeeds and throws the store's
  error when the lookup fails, so it never returns an analytics object for that code.
\<close>

theorem unknown_link_no_effect_and_not_found:
  assumes "link_doc code w = None"
  shows "fst (recordClick_try rt now code data w) =
           (case faults w of Some e # fs \<Rightarrow> Inl e | _ \<Rightarrow> Inr ()) \<and>
         fst (recordClick rt now code data w) = Inr () \<and>
         console (snd (recordClick rt now code data w)) =
           (case faults w of Some e # fs \<Rightarrow> console w @ [e] | _ \<Rightarrow> console w) \<and>
         (succeed 1 w \<longrightarrow>
            fst (recordClick_try rt now code data w) = Inr () \<and>
            console (snd (recordClick rt now code data w)) = console w) \<and>
         calls (snd (recordClick rt now code data w)) = calls w @ [Url_findOne_call] \<and>
         urls (snd (recordClick rt now code data w)) = urls w \<and>
         events (snd (recordClick rt now code data w)) = events w \<and>
         fst (getUrlAnalytics code options w) =
           (case faults w of Some e # fs \<Rightarrow> Inl e | _ \<Rightarrow> Inr None) \<and>
         (\<forall>a. fst (getUrlAnalytics code options w) \<noteq> Inr (Some a))"
proof -
  have g: "fst (getUrlAnalytics code options w) =
           (case faults w of Some e # fs \<Rightarrow> Inl e | _ \<Rightarrow> Inr None)"
    by (rule getUrlAnalytics_unknown_link[OF assms])
  have n: "\<forall>a. fst (getUrlAnalytics code options w) \<noteq> Inr (Some a)"
    unfolding g by (auto split: list.splits option.splits)
  note B = recordClick_try_unknown_link[OF assms, of rt now data]
  note L = recordClick_unknown_link_log[OF assms, of rt now data]
  note U = recordClick_unknown_link[OF assms, of rt now data]
  have s: "fst (recordClick_try rt now code data w) = Inr () \<and>
           console (snd (recordClick rt now code data w)) = console w"
    if "succeed 1 w"
    using that B[THEN conjunct1] L[THEN conjunct1]
    by (auto simp: succeed_def split: list.splits option.splits)
  show ?thesis
    apply (intro conjI impI)
            apply (rule B[THEN conjunct1])
           apply (rule recordClick_result)
          apply (rule L[THEN conjunct1])
         apply (erule s[THEN conjunct1])
        apply (erule s[THEN conjunct2])
       apply (rule L[THEN conjunct2])
      apply (rule U[THEN conjunct1])
     apply (rule U[THEN conjunct2])
    apply (rule g)
    apply (rule n)
    done
qed

text \<open>The short code \<open>nope\<close> in a world whose only link is \<open>abc\<close>.\<close>

theorem unknown_link_no_effect_and_not_found_witness:
  "link_doc ''nope'' world_with_link = None \<and> succeed 1 world_with_link \<and>
   fst (recordClick_try utc_runtime 1700000001000 ''nope'' (click_from ''10.0.0.1'') world_with_link)
     = Inr () \<and>
   console (snd (recordClick utc_runtime 1700000001000 ''nope'' (click_from ''10.0.0.1'')
                   world_with_link)) = [] \<and>
   urls (snd (recordClick utc_runtime 1700000001000 ''nope'' (click_from ''10.0.0.1'') world_with_link))
     = urls world_with_link \<and>
   events (snd (recordClick utc_runtime 1700000001000 ''nope'' (click_from ''10.0.0.1'') world_with_link))
     = [] \<and>
   fst (getUrlAnalytics ''nope'' \<lparr> startDate = None, endDate = None \<rparr> world_with_link) = Inr None"
proof -
  have h: "link_doc ''nope'' world_with_link = None" by code_simp
  have e: "events world_with_link = []" by code_simp
  have f: "faults world_with_link = []" by code_simp
  have c: "console world_with_link = []" by code_simp
  have s: "succeed 1 world_with_link" by code_simp
  note T = unknown_link_no_effect_and_not_found[OF h, of utc_runtime 1700000001000
      "click_from ''10.0.0.1''" "\<lparr> startDate = None, endDate = None \<rparr>"]
  show ?thesis using T h e f c s by simp
qed

lemma getUrlAnalytics_total:
  assumes "link_doc code w = Some d" "succeed 2 w"
  shows "\<exists>a. fst (getUrlAnalytics code options w) = Inr (Some a) \<and>
           ua_totalClicks a =
             length (filter (\<lambda>e. time_query options (ev_timestamp e)) (link_events code w))"
proof -
  obtain f w1 where sc: "store_call Url_findOne_call w = (f, w1)"
    by (cases "store_call Url_findOne_call w") auto
  have f: "f = None" using sc assms(2)
    by (auto simp: store_call_def succeed_def split: list.splits)
  have w1: "urls w1 = urls w" "events w1 = events w" "succeed 1 w1"
    using sc assms(2) by (auto simp: store_call_def succeed_def numeral_2_eq_2 split: list.splits)
  obtain f2 w2 where sc2: "store_call ClickEvent_find_call w1 = (f2, w2)"
    by (cases "store_call ClickEvent_find_call w1") auto
  have f2: "f2 = None" using sc2 w1(3)
    by (auto simp: store_call_def succeed_def split: list.splits)
  have w2: "events w2 = events w1"
    using sc2 by (auto simp: store_call_def split: list.splits)
  have fo: "Url_findOne code w = (Inr (Some d), w1)"
    using sc f w1 assms(1) by (simp add: Url_findOne_def link_doc_def)
  have fi: "ClickEvent_find code options w1 =
      (Inr (sort_key (\<lambda>e. - ev_timestamp e)
                  (filter (\<lambda>e. ev_shortCode e = code \<and> time_query options (ev_timestamp e))
                     (events w))), w2)"
    using sc2 f2 w2 w1 by (simp add: ClickEvent_find_def)
  have fl: "filter (\<lambda>e. ev_shortCode e = code \<and> time_query options (ev_timestamp e)) (events w)
          = filter (\<lambda>e. time_query options (ev_timestamp e)) (link_events code w)"
    by (simp add: link_events_def conj_commute)
  show ?thesis
    by (simp add: getUrlAnalytics_def fo fi fl)
qed


text \<open>
  Claim C6. Time-range filtering of \<open>getUrlAnalytics\<close>. For an existing link, when the
  two store calls of the query succeed, \<open>totalClicks\<close> is the number of events of the link
  whose timestamp is at or after \<open>startDate\<close>, if that bound is given, and at or before
  \<open>endDate\<close>, if that bound is given. With \<open>startDate = boundary\<close> alone it counts the events
  at or after the boundary; without bounds it counts all events of the link, which is that
  number plus the number of events before the boundary.
\<close>

theorem getUrlAnalytics_time_range:
  assumes "link_doc code w = Some d" "succeed 2 w"
  shows "(\<exists>a. fst (getUrlAnalytics code options w) = Inr (Some a) \<and>
            ua_totalClicks a =
              length (filter (\<lambda>e. (\<forall>s. startDate options = Some s \<longrightarrow> s \<le> ev_timestamp e) \<and>
                                  (\<forall>u. endDate options = Some u \<longrightarrow> ev_timestamp e \<le> u))
                        (link_events code w))) \<and>
         (\<exists>a f. fst (getUrlAnalytics code \<lparr> startDate = Some boundary, endDate = None \<rparr> w)
                   = Inr (Some a) \<and>
                fst (getUrlAnalytics code \<lparr> startDate = None, endDate = None \<rparr> w)
                   = Inr (Some f) \<and>
                ua_totalClicks a =
                  length (filter (\<lambda>e. boundary \<le> ev_timestamp e) (link_events code w)) \<and>
                ua_totalClicks f = length (link_events code w) \<and>
                ua_totalClicks f =
                  ua_totalClicks a +
                  length (filter (\<lambda>e. ev_timestamp e < boundary) (link_events code w)))"
proof -
  have tq: "time_query options t =
      ((\<forall>s. startDate options = Some s \<longrightarrow> s \<le> t) \<and> (\<forall>u. endDate options = Some u \<longrightarrow> t \<le> u))"
    for t by (auto simp: time_query_def split: option.splits)
  from getUrlAnalytics_total[OF assms, of options]
  have p1: "\<exists>a. fst (getUrlAnalytics code options w) = Inr (Some a) \<and>
            ua_totalClicks a =
              length (filter (\<lambda>e. (\<forall>s. startDate options = Some s \<longrightarrow> s \<le> ev_timestamp e) \<and>
                                  (\<forall>u. endDate options = Some u \<longrightarrow> ev_timestamp e \<le> u))
                        (link_events code w))"
    by (simp only: tq)
  from getUrlAnalytics_total[OF assms, of "\<lparr> startDate = Some boundary, endDate = None \<rparr>"]
  obtain a where A: "fst (getUrlAnalytics code \<lparr> startDate = Some boundary, endDate = None \<rparr> w)
                   = Inr (Some a)"
      and A2: "ua_totalClicks a =
                  length (filter (\<lambda>e. boundary \<le> ev_timestamp e) (link_events code w))"
    by (auto simp: time_query_def)
  from getUrlAnalytics_total[OF assms, of "\<lparr> startDate = None, endDate = None \<rparr>"]
  obtain f where F: "fst (getUrlAnalytics code \<lparr> startDate = None, endDate = None \<rparr> w)
                   = Inr (Some f)"
      and F2: "ua_totalClicks f = length (link_events code w)"
    by (auto simp: time_query_def)
  have split: "length xs = length (filter (\<lambda>e. boundary \<le> ev_timestamp e) xs) +
                 length (filter (\<lambda>e. ev_timestamp e < boundary) xs)" for xs :: "click_event list"
    by (induction xs) auto
  have S: "ua_totalClicks f =
                  ua_totalClicks a +
                  length (filter (\<lambda>e. ev_timestamp e < boundary) (link_events code w))"
    unfolding A2 F2 by (rule split)
  have p2: "\<exists>a f. fst (getUrlAnalytics code \<lparr> startDate = Some boundary, endDate = None \<rparr> w)
                   = Inr (Some a) \<and>
                fst (getUrlAnalytics code \<lparr> startDate = None, endDate = None \<rparr> w)
                   = Inr (Some f) \<and>
                ua_totalClicks a =
                  length (filter (\<lambda>e. boundary \<le> ev_timestamp e) (link_events code w)) \<and>
                ua_totalClicks f = length (link_events code w) \<and>
                ua_totalClicks f =
                  ua_totalClicks a +
                  length (filter (\<lambda>e. ev_timestamp e < boundary) (link_events code w))"
    using A A2 F F2 S by blast
  show ?thesis using p1 p2 by (rule conjI)
qed

text \<open>Three events, one before the boundary, one on it, one after it.\<close>

theorem getUrlAnalytics_time_range_witness:
  "link_doc ''abc'' world_after_clicks \<noteq> None \<and> succeed 2 world_after_clicks \<and>
   map ev_timestamp (link_events ''abc'' world_after_clicks)
     = [1700000001000, 1700000002000, 1700000003000] \<and>
   (\<exists>a f. fst (getUrlAnalytics ''abc'' \<lparr> startDate = Some 1700000002000, endDate = None \<rparr>
                 world_after_clicks) = Inr (Some a) \<and>
          fst (getUrlAnalytics ''abc'' \<lparr> startDate = None, endDate = None \<rparr>
                 world_after_clicks) = Inr (Some f) \<and>
          ua_totalClicks a = 2 \<and> ua_totalClicks f = 3)"
proof -
  obtain d where h1: "link_doc ''abc'' world_after_clicks = Some d"
    by (cases "link_doc ''abc'' world_after_clicks") (simp_all, code_simp)
  have h2: "succeed 2 world_after_clicks" by code_simp
  have ts: "map ev_timestamp (link_events ''abc'' world_after_clicks)
     = [1700000001000, 1700000002000, 1700000003000]" by code_simp
  have n2: "length (filter (\<lambda>e. 1700000002000 \<le> ev_timestamp e)
               (link_events ''abc'' world_after_clicks)) = 2" by code_simp
  have n3: "length (link_events ''abc'' world_after_clicks) = 3" by code_simp
  note T = getUrlAnalytics_time_range[OF h1 h2, of "\<lparr> startDate = None, endDate = None \<rparr>"
      1700000002000, THEN conjunct2]
  show ?thesis using T h1 h2 ts unfolding n2 n3 by auto
qed

section \<open>Failure containment\<close>

lemma increment_referrer_sources:
  "map source (increment_referrer r rs) = map source rs"
  by (induction rs) auto

lemma valid_saved_doc:
  assumes "valid_url_doc d" "cd_referrer cd \<noteq> []"
  shows "valid_url_doc (saved_doc rt cd ips d)"
proof -
  define pushed where "pushed =
     (case find (\<lambda>r. source r = cd_referrer cd) (topReferrers d) of
        Some r \<Rightarrow> increment_referrer (cd_referrer cd) (topReferrers d)
      | None \<Rightarrow> topReferrers d @ [\<lparr> source = cd_referrer cd, ref_count = 1 \<rparr>])"
  have tr: "topReferrers (saved_doc rt cd ips d) =
              take 10 (sort_key (\<lambda>r. - int (ref_count r)) pushed)"
    by (simp add: saved_doc_def updateClicksByDay_def updateTopReferrers_def Let_def pushed_def
        split: option.splits)
  have s0: "\<forall>s\<in>set (map source (topReferrers d)). s \<noteq> []"
    using assms(1) by (simp add: valid_url_doc_def list_all_iff)
  have "\<forall>s\<in>set (map source pushed). s \<noteq> []"
  proof (cases "find (\<lambda>r. source r = cd_referrer cd) (topReferrers d)")
    case None
    then show ?thesis using s0 assms(2) by (simp add: pushed_def)
  next
    case (Some r)
    then show ?thesis using s0 by (simp add: pushed_def increment_referrer_sources)
  qed
  then have "\<forall>r\<in>set pushed. source r \<noteq> []" by simp
  then have "\<forall>r\<in>set (take 10 (sort_key (\<lambda>r. - int (ref_count r)) pushed)). source r \<noteq> []"
    by (meson in_set_takeD set_sort[THEN equalityD1, THEN subsetD])
  then show ?thesis by (simp add: valid_url_doc_def tr list_all_iff)
qed

lemma update_attempt_scripted:
  assumes link: "link_doc code w = Some d"
      and fl: "faults w = None # None # f # rest"
      and valid: "valid_url_doc (saved_doc rt cd (remdups (map ev_anonymizedIp (link_events code w))) d)"
  shows "update_attempt rt code cd w =
     ((case f of None \<Rightarrow> Inr () | Some e \<Rightarrow> Inl e),
      w\<lparr> faults := rest,
         calls := calls w @ [Url_findOne_call, ClickEvent_distinct_call, Url_save_call],
         urls := (case f of
                    None \<Rightarrow> replace_doc (saved_doc rt cd
                              (remdups (map ev_anonymizedIp (link_events code w))) d) (urls w)
                  | Some e \<Rightarrow> urls w) \<rparr>)"
  using assms
  unfolding update_attempt_def Url_findOne_def ClickEvent_distinct_def Url_save_def
      store_call_def link_doc_def link_events_def saved_doc_def
  by (cases f) (simp_all add: Let_def)


lemma updateAggregatedStats_conflict:
  assumes link: "link_doc code w = Some d"
      and fl: "faults w = None # None # Some VersionError # None # None # f # rest"
      and valid: "valid_url_doc (saved_doc rt cd (remdups (map ev_anonymizedIp (link_events code w))) d)"
  shows "updateAggregatedStats rt code cd w =
     ((case f of None \<Rightarrow> Inr () | Some e \<Rightarrow> Inl e),
      w\<lparr> faults := rest,
         calls := calls w @ [Url_findOne_call, ClickEvent_distinct_call, Url_save_call,
                             Url_findOne_call, ClickEvent_distinct_call, Url_save_call],
         urls := (case f of
                    None \<Rightarrow> replace_doc (saved_doc rt cd
                              (remdups (map ev_anonymizedIp (link_events code w))) d) (urls w)
                  | Some e \<Rightarrow> urls w) \<rparr>)"
proof -
  define w1 where "w1 = w\<lparr> faults := None # None # f # rest,
         calls := calls w @ [Url_findOne_call, ClickEvent_distinct_call, Url_save_call],
         urls := urls w \<rparr>"
  have a1: "update_attempt rt code cd w = (Inl VersionError, w1)"
    using update_attempt_scripted[OF link fl valid] by (simp add: w1_def)
  have l1: "link_doc code w1 = Some d" using link by (simp add: w1_def link_doc_def)
  have f1: "faults w1 = None # None # f # rest" by (simp add: w1_def)
  have e1: "link_events code w1 = link_events code w" by (simp add: w1_def link_events_def)
  have v1: "valid_url_doc (saved_doc rt cd (remdups (map ev_anonymizedIp (link_events code w1))) d)"
    using valid by (simp add: e1)
  have a2: "updateAggregatedStats rt code cd w = update_attempt rt code cd w1"
    by (simp add: updateAggregatedStats_def a1)
  show ?thesis
    unfolding a2 update_attempt_scripted[OF l1 f1 v1] e1
    by (cases f) (simp_all add: w1_def)
qed

lemma recordClick_conflict_retry:
  assumes link: "link_doc code w = Some d"
      and valid: "valid_url_doc d"
      and ref: "extractReferrer rt (or_empty (data_referrer dat)) \<noteq> []"
      and fl: "faults w = None # None # None # None # Some VersionError # None # None # f # rest"
  shows "url_saves (snd (recordClick rt now code (Some dat) w)) = url_saves w + 2 \<and>
         faults (snd (recordClick rt now code (Some dat) w)) = rest \<and>
         (case f of
            None \<Rightarrow>
              console (snd (recordClick rt now code (Some dat) w)) = console w \<and>
              (\<exists>d'. link_doc code (snd (recordClick rt now code (Some dat) w)) = Some d' \<and>
                    totalClicks d' = totalClicks d + 1)
          | Some e \<Rightarrow>
              console (snd (recordClick rt now code (Some dat) w)) = console w @ [e] \<and>
              urls (snd (recordClick rt now code (Some dat) w)) = urls w)"
proof -
  define ev where "ev = \<lparr> ev_shortCode = code, ev_timestamp = now,
           ev_anonymizedIp = anonymizeIp (data_ip dat),
           ev_browser = parseBrowser (or_empty (data_userAgent dat)),
           ev_os = parseOs (or_empty (data_userAgent dat)),
           ev_referrer = extractReferrer rt (or_empty (data_referrer dat)) \<rparr>"
  define cd where "cd = \<lparr> cd_anonymizedIp = anonymizeIp (data_ip dat),
           cd_referrer = extractReferrer rt (or_empty (data_referrer dat)),
           cd_timestamp = now \<rparr>"
  define w1 where "w1 = w\<lparr> faults := None # None # None # Some VersionError # None # None # f # rest,
                          calls := calls w @ [Url_findOne_call] \<rparr>"
  define w2 where "w2 = w\<lparr> faults := None # None # Some VersionError # None # None # f # rest,
                          calls := calls w @ [Url_findOne_call, ClickEvent_save_call],
                          events := events w @ [ev] \<rparr>"
  define ips where "ips = remdups (map ev_anonymizedIp (link_events code w2))"
  define w4 where "w4 = w2\<lparr> faults := rest,
         calls := calls w2 @ [Url_findOne_call, ClickEvent_distinct_call, Url_save_call,
                             Url_findOne_call, ClickEvent_distinct_call, Url_save_call],
         urls := (case f of
                    None \<Rightarrow> replace_doc (saved_doc rt cd ips d) (urls w2)
                  | Some e \<Rightarrow> urls w2) \<rparr>"
  have fo: "Url_findOne code w = (Inr (Some d), w1)"
    using link fl by (simp add: Url_findOne_def store_call_def link_doc_def w1_def)
  have sv: "ClickEvent_save ev w1 = (Inr (), w2)"
    by (simp add: ClickEvent_save_def store_call_def w1_def w2_def)
  have evt: "ev_timestamp ev = now" by (simp add: ev_def)
  have body: "recordClick_try rt now code (Some dat) w = updateAggregatedStats rt code cd w2"
    using fo sv
    by (simp add: recordClick_try_def parseUserAgent_def ev_def[symmetric] cd_def Let_def evt
        split: prod.splits sum.splits)
  have l2: "link_doc code w2 = Some d" using link by (simp add: w2_def link_doc_def)
  have f2: "faults w2 = None # None # Some VersionError # None # None # f # rest"
    by (simp add: w2_def)
  have cr: "cd_referrer cd \<noteq> []" using ref by (simp add: cd_def)
  have v2: "valid_url_doc (saved_doc rt cd (remdups (map ev_anonymizedIp (link_events code w2))) d)"
    by (rule valid_saved_doc[OF valid cr])
  have ua: "updateAggregatedStats rt code cd w2 =
              ((case f of None \<Rightarrow> Inr () | Some e \<Rightarrow> Inl e), w4)"
    using updateAggregatedStats_conflict[OF l2 f2 v2] by (cases f) (simp_all add: w4_def ips_def)
  have f4: "faults w4 = rest" by (simp add: w4_def)
  have s4: "url_saves w4 = url_saves w + 2" by (simp add: w4_def w2_def url_saves_def)
  have c4: "console w4 = console w" by (simp add: w4_def w2_def)
  show ?thesis
  proof (cases f)
    case None
    then have rc: "recordClick rt now code (Some dat) w = (Inr (), w4)"
      by (simp add: recordClick_def body ua)
    have u4: "urls w4 = replace_doc (saved_doc rt cd ips d) (urls w)"
      using None by (simp add: w4_def w2_def)
    have fd: "find (\<lambda>x. shortCode x = code) (urls w) = Some d"
      using link by (simp add: link_doc_def)
    have sc: "shortCode (saved_doc rt cd ips d) = code"
      using find_shortCode[OF fd] by (simp add: saved_doc_fields)
    have l4: "link_doc code w4 = Some (saved_doc rt cd ips d)"
      unfolding link_doc_def u4 by (rule find_replace_doc[OF fd sc])
    have "\<exists>d'. link_doc code w4 = Some d' \<and> totalClicks d' = totalClicks d + 1"
      using l4 by (simp add: saved_doc_fields)
    then show ?thesis using None f4 s4 c4 by (simp add: rc)
  next
    case (Some e)
    then have rc: "recordClick rt now code (Some dat) w = (Inr (), w4\<lparr> console := console w4 @ [e] \<rparr>)"
      by (simp add: recordClick_def body ua)
    have u4: "urls w4 = urls w" using Some by (simp add: w4_def w2_def)
    show ?thesis using Some f4 s4 c4 u4 by (simp add: rc url_saves_def)
  qed
qed

lemma Url_findOne_saves: "Url_findOne code w = (r, w') \<Longrightarrow> url_saves w' = url_saves w"
  by (auto simp: Url_findOne_def store_call_def url_saves_def split: list.splits option.splits)

lemma ClickEvent_save_saves: "ClickEvent_save ev w = (r, w') \<Longrightarrow> url_saves w' = url_saves w"
  by (auto simp: ClickEvent_save_def store_call_def url_saves_def split: list.splits option.splits)

lemma recordClick_try_saves:
  assumes "recordClick_try rt now code data w = (r, w')"
  shows "url_saves w' \<le> url_saves w + 2"
proof -
  obtain r1 w1 where fo: "Url_findOne code w = (r1, w1)"
    by (cases "Url_findOne code w") auto
  have s1: "url_saves w1 = url_saves w" by (rule Url_findOne_saves[OF fo])
  show ?thesis
  proof (cases r1)
    case (Inl e)
    then have "recordClick_try rt now code data w = (Inl e, w1)"
      using fo by (simp add: recordClick_try_def)
    then show ?thesis using assms s1 by simp
  next
    case (Inr found)
    show ?thesis
    proof (cases found)
      case None
      then have "recordClick_try rt now code data w = (Inr (), w1)"
        using fo Inr by (simp add: recordClick_try_def)
      then show ?thesis using assms s1 by simp
    next
      case (Some d)
      show ?thesis
      proof (cases data)
        case None
        then have "recordClick_try rt now code data w = (Inl TypeError, w1)"
          using fo Inr Some by (simp add: recordClick_try_def)
        then show ?thesis using assms s1 by simp
      next
        case (Some dat)
        define ev where "ev = \<lparr> ev_shortCode = code, ev_timestamp = now,
           ev_anonymizedIp = anonymizeIp (data_ip dat),
           ev_browser = parseBrowser (or_empty (data_userAgent dat)),
           ev_os = parseOs (or_empty (data_userAgent dat)),
           ev_referrer = extractReferrer rt (or_empty (data_referrer dat)) \<rparr>"
        define cd where "cd = \<lparr> cd_anonymizedIp = anonymizeIp (data_ip dat),
           cd_referrer = extractReferrer rt (or_empty (data_referrer dat)),
           cd_timestamp = now \<rparr>"
        have evt: "ev_timestamp ev = now" by (simp add: ev_def)
        have body: "recordClick_try rt now code data w =
           (case ClickEvent_save ev w1 of
              (Inl e, w2) \<Rightarrow> (Inl e, w2)
            | (Inr u, w2) \<Rightarrow> updateAggregatedStats rt code cd w2)"
          using fo Inr \<open>found = Some d\<close> Some
          by (simp add: recordClick_try_def parseUserAgent_def ev_def[symmetric] cd_def Let_def evt
              split: prod.splits sum.splits)
        obtain r2 w2 where sv: "ClickEvent_save ev w1 = (r2, w2)"
          by (cases "ClickEvent_save ev w1") auto
        have s2: "url_saves w2 = url_saves w" using ClickEvent_save_saves[OF sv] s1 by simp
        show ?thesis
        proof (cases r2)
          case (Inl e)
          then have "recordClick_try rt now code data w = (Inl e, w2)"
            using body sv by simp
          then show ?thesis using assms s2 by simp
        next
          case (Inr u)
          then have "recordClick_try rt now code data w = updateAggregatedStats rt code cd w2"
            using body sv by simp
          then have "updateAggregatedStats rt code cd w2 = (r, w')" using assms by simp
          from updateAggregatedStats_saves[OF this] show ?thesis using s2 by simp
        qed
      qed
    qed
  qed
qed

lemma recordClick_saves:
  "url_saves (snd (recordClick rt now code data w)) \<le> url_saves w + 2"
proof -
  obtain r0 w0 where t: "recordClick_try rt now code data w = (r0, w0)"
    by (cases "recordClick_try rt now code data w") auto
  have "url_saves (snd (recordClick rt now code data w)) = url_saves w0"
    using t by (cases r0) (simp_all add: recordClick_def url_saves_def)
  then show ?thesis using recordClick_try_saves[OF t] by simp
qed

text \<open>
  Claim C7. Failure containment of \<open>recordClick\<close>. For any input and any outcomes of the
  store calls, \<open>recordClick\<close> returns normally, saves the aggregate at most twice (the first
  attempt and one retry), and writes at most one error to the console. When the save of the
  first attempt fails with a version conflict (all calls before it, and the read and the
  count of the retry, succeeding, on a valid document), the aggregate is saved exactly once
  more: if that save succeeds the click is counted and nothing is logged; if it fails, with
  whatever error, the error is logged, the documents are left as they were, and no further
  save is attempted.
\<close>

theorem recordClick_contains_failures:
  "fst (recordClick rt now code data w) = Inr () \<and>
   url_saves (snd (recordClick rt now code data w)) \<le> url_saves w + 2 \<and>
   (console (snd (recordClick rt now code data w)) = console w \<or>
    (\<exists>e. console (snd (recordClick rt now code data w)) = console w @ [e])) \<and>
   (link_doc code w = Some d \<and> valid_url_doc d \<and> data = Some dat \<and>
    extractReferrer rt (or_empty (data_referrer dat)) \<noteq> [] \<and>
    faults w = None # None # None # None # Some VersionError # None # None # f # rest \<longrightarrow>
      url_saves (snd (recordClick rt now code data w)) = url_saves w + 2 \<and>
      faults (snd (recordClick rt now code data w)) = rest \<and>
      (case f of
         None \<Rightarrow>
           console (snd (recordClick rt now code data w)) = console w \<and>
           (\<exists>d'. link_doc code (snd (recordClick rt now code data w)) = Some d' \<and>
                 totalClicks d' = totalClicks d + 1)
       | Some e \<Rightarrow>
           console (snd (recordClick rt now code data w)) = console w @ [e] \<and>
           urls (snd (recordClick rt now code data w)) = urls w))"
proof (intro conjI impI)
  show "fst (recordClick rt now code data w) = Inr ()" by (rule recordClick_result)
  show "url_saves (snd (recordClick rt now code data w)) \<le> url_saves w + 2"
    by (rule recordClick_saves)
  show "console (snd (recordClick rt now code data w)) = console w \<or>
    (\<exists>e. console (snd (recordClick rt now code data w)) = console w @ [e])"
    by (rule recordClick_console_step)
next
  assume h: "link_doc code w = Some d \<and> valid_url_doc d \<and> data = Some dat \<and>
    extractReferrer rt (or_empty (data_referrer dat)) \<noteq> [] \<and>
    faults w = None # None # None # None # Some VersionError # None # None # f # rest"
  note h1 = h[THEN conjunct1]
  note h2 = h[THEN conjunct2, THEN conjunct1]
  note h3 = h[THEN conjunct2, THEN conjunct2, THEN conjunct1]
  note h4 = h[THEN conjunct2, THEN conjunct2, THEN conjunct2, THEN conjunct1]
  note h5 = h[THEN conjunct2, THEN conjunct2, THEN conjunct2, THEN conjunct2]
  note R = recordClick_conflict_retry[OF h1 h2 h4 h5, of now, folded h3]
  show "url_saves (snd (recordClick rt now code data w)) = url_saves w + 2"
    by (rule R[THEN conjunct1])
  show "faults (snd (recordClick rt now code data w)) = rest"
    by (rule R[THEN conjunct2, THEN conjunct1])
  show "case f of
         None \<Rightarrow>
           console (snd (recordClick rt now code data w)) = console w \<and>
           (\<exists>d'. link_doc code (snd (recordClick rt now code data w)) = Some d' \<and>
                 totalClicks d' = totalClicks d + 1)
       | Some e \<Rightarrow>
           console (snd (recordClick rt now code data w)) = console w @ [e] \<and>
           urls (snd (recordClick rt now code data w)) = urls w"
    by (rule R[THEN conjunct2, THEN conjunct2])
qed


text \<open>A click whose aggregate update meets a version conflict twice.\<close>

theorem recordClick_contains_failures_witness:
  "link_doc ''abc'' world_with_conflicts
     = Some (new_url_doc ''abc'' ''https://example.com/page'' 1700000000000) \<and>
   faults world_with_conflicts
     = [None, None, None, None, Some VersionError, None, None, Some VersionError] \<and>
   fst (recordClick utc_runtime 1700000001000 ''abc'' (click_from ''10.0.0.1'') world_with_conflicts)
     = Inr () \<and>
   url_saves (snd (recordClick utc_runtime 1700000001000 ''abc'' (click_from ''10.0.0.1'')
                     world_with_conflicts)) = url_saves world_with_conflicts + 2 \<and>
   console (snd (recordClick utc_runtime 1700000001000 ''abc'' (click_from ''10.0.0.1'')
                   world_with_conflicts)) = console world_with_conflicts @ [VersionError] \<and>
   urls (snd (recordClick utc_runtime 1700000001000 ''abc'' (click_from ''10.0.0.1'')
                world_with_conflicts)) = urls world_with_conflicts"
proof -
  let ?d = "new_url_doc ''abc'' ''https://example.com/page'' 1700000000000"
  let ?dat = "\<lparr> data_ip = Some ''10.0.0.1'', data_userAgent = None, data_referrer = None \<rparr>"
  have h1: "link_doc ''abc'' world_with_conflicts = Some ?d" by code_simp
  have h2: "valid_url_doc ?d" by code_simp
  have h3: "click_from ''10.0.0.1'' = Some ?dat" by (simp add: click_from_def)
  have h4: "extractReferrer utc_runtime (or_empty (data_referrer ?dat)) \<noteq> []" by code_simp
  have h5: "faults world_with_conflicts
     = None # None # None # None # Some VersionError # None # None # Some VersionError # []"
    by code_simp
  note T = recordClick_contains_failures[of utc_runtime 1700000001000 "''abc''"
      "click_from ''10.0.0.1''" world_with_conflicts ?d ?dat "Some VersionError" "[]"]
  note T1 = T[THEN conjunct1]
  note T4 = T[THEN conjunct2, THEN conjunct2, THEN conjunct2, THEN mp,
      OF conjI[OF h1 conjI[OF h2 conjI[OF h3 conjI[OF h4 h5]]]]]
  show ?thesis using T1 T4 h1 h5 by simp
qed

section \<open>Properties of the popular-links query\<close>

lemma Url_find_popular_ok:
  assumes "succeed 1 w"
  shows "fst (Url_find_popular limit w) =
           Inr (store_limit limit
                  (sort_key (\<lambda>d. - int (totalClicks d)) (filter isActive (urls w))))"
  using assms
  by (auto simp: Url_find_popular_def store_call_def succeed_def split: list.splits)

lemma getPopularUrls_ok:
  assumes "succeed 1 w"
  shows "fst (getPopularUrls limit w) =
           Inr (map (\<lambda>url. \<lparr> pu_shortCode = shortCode url,
                               pu_originalUrl = originalUrl url,
                               pu_clicks = clicks url,
                               pu_totalClicks = totalClicks url,
                               pu_uniqueVisitors = uniqueVisitors url,
                               pu_createdAt = createdAt url \<rparr>)
                  (store_limit (case limit of None \<Rightarrow> 10 | Some n \<Rightarrow> n)
                     (sort_key (\<lambda>d. - int (totalClicks d)) (filter isActive (urls w)))))"
proof -
  obtain r w' where u: "Url_find_popular (case limit of None \<Rightarrow> 10 | Some n \<Rightarrow> n) w = (r, w')"
    by (cases "Url_find_popular (case limit of None \<Rightarrow> 10 | Some n \<Rightarrow> n) w") auto
  have "r = Inr (store_limit (case limit of None \<Rightarrow> 10 | Some n \<Rightarrow> n)
                  (sort_key (\<lambda>d. - int (totalClicks d)) (filter isActive (urls w))))"
    using Url_find_popular_ok[OF assms, of "case limit of None \<Rightarrow> 10 | Some n \<Rightarrow> n"] u by simp
  then show ?thesis using u by (simp add: getPopularUrls_def)
qed

lemma popular_route_length:
  assumes "succeed 1 w" "0 < n"
  shows "result_length (popular_route (Some n) w) =
           Some (min (nat n) (length (filter isActive (urls w))))"
  using assms(2)
  by (simp add: result_length_def popular_route_def getPopularUrls_ok[OF assms(1)]
      store_limit_def min_def)

text \<open>
  Claim C9. Popular-links query: the limit is not clamped. The claim has the query
  return active links only, by descending \<open>totalClicks\<close>, at most \<open>limit\<close> of them (10 by
  default), with a caller's limit clamped to a maximum such as 100, which is also what the
  service's documentation states (\<open>max: 100\<close>). The route hands the parsed number to
  \<open>getPopularUrls\<close> and the latter to the store, unchanged: with 101 active links and
  \<open>limit = 101\<close> the answer has 101 entries. The filter, the order and the default are as
  claimed (\<open>getPopularUrls_active_sorted_limited\<close> below).
\<close>

theorem popular_route_passes_limit_101:
  "result_length (popular_route (Some 101) world_101_links) = Some 101"
proof -
  have s: "succeed 1 world_101_links"
    by (simp add: world_101_links_def empty_world_def succeed_def)
  have "filter isActive (urls world_101_links) = urls world_101_links"
    by (simp add: world_101_links_def new_url_doc_def filter_map o_def)
  moreover have "length (urls world_101_links) = 101"
    by (simp add: world_101_links_def)
  ultimately have l: "length (filter isActive (urls world_101_links)) = 101" by simp
  show ?thesis
    using popular_route_length[OF s, of 101] by (simp add: l)
qed

section \<open>The aggregate invariant\<close>

lemma sort_key_desc:
  "sorted_wrt (\<lambda>a b. f b \<le> f a) (sort_key (\<lambda>x. - f x) xs)" for f :: "'a \<Rightarrow> int"
proof -
  have "sorted (map (\<lambda>x. - f x) (sort_key (\<lambda>x. - f x) xs))" by (rule sorted_sort_key)
  then show ?thesis by (simp add: sorted_map)
qed

lemma updateTopReferrers_capped_sorted:
  "length (topReferrers (updateTopReferrers d r)) \<le> 10 \<and>
   sorted_wrt (\<lambda>a b. ref_count b \<le> ref_count a) (topReferrers (updateTopReferrers d r))"
proof -
  obtain pushed where t: "topReferrers (updateTopReferrers d r) =
      take 10 (sort_key (\<lambda>r. - int (ref_count r)) pushed)"
    by (simp add: updateTopReferrers_def Let_def)
  have "sorted_wrt (\<lambda>a b. int (ref_count b) \<le> int (ref_count a))
          (sort_key (\<lambda>r. - int (ref_count r)) pushed)"
    by (rule sort_key_desc)
  then have "sorted_wrt (\<lambda>a b. ref_count b \<le> ref_count a)
          (take 10 (sort_key (\<lambda>r. - int (ref_count r)) pushed))"
    by (intro sorted_wrt_take) simp
  then show ?thesis by (simp add: t)
qed

lemma updateClicksByDay_capped_sorted:
  "length (clicksByDay (updateClicksByDay rt d t)) \<le> 30 \<and>
   sorted_wrt (\<lambda>a b. date b \<le> date a) (clicksByDay (updateClicksByDay rt d t))"
proof -
  obtain pushed where t: "clicksByDay (updateClicksByDay rt d t) =
      take 30 (sort_key (\<lambda>d. - date d) pushed)"
    by (simp add: updateClicksByDay_def Let_def)
  have "sorted_wrt (\<lambda>a b. date b \<le> date a) (sort_key (\<lambda>d. - date d) pushed)"
    by (rule sort_key_desc)
  then have "sorted_wrt (\<lambda>a b. date b \<le> date a) (take 30 (sort_key (\<lambda>d. - date d) pushed))"
    by (rule sorted_wrt_take)
  then show ?thesis by (simp add: t)
qed

lemma saved_doc_lists:
  "length (topReferrers (saved_doc rt cd ips d)) \<le> 10 \<and>
   sorted_wrt (\<lambda>a b. ref_count b \<le> ref_count a) (topReferrers (saved_doc rt cd ips d)) \<and>
   length (clicksByDay (saved_doc rt cd ips d)) \<le> 30 \<and>
   sorted_wrt (\<lambda>a b. date b \<le> date a) (clicksByDay (saved_doc rt cd ips d))"
proof -
  define d2 where "d2 = d\<lparr> totalClicks := totalClicks d + 1,
                   lastClickAt := Some (cd_timestamp cd),
                   uniqueVisitors := length ips \<rparr>"
  define d3 where "d3 = updateTopReferrers d2 (cd_referrer cd)"
  have s: "saved_doc rt cd ips d = updateClicksByDay rt d3 (cd_timestamp cd)"
    by (simp add: saved_doc_def d3_def d2_def)
  have tr: "topReferrers (updateClicksByDay rt d3 (cd_timestamp cd)) = topReferrers d3"
    by (simp add: updateClicksByDay_def Let_def)
  show ?thesis
    unfolding s tr
    using updateTopReferrers_capped_sorted[of d2 "cd_referrer cd"]
          updateClicksByDay_capped_sorted[of rt d3 "cd_timestamp cd"]
    by (simp add: d3_def)
qed


lemma recordClick_success_saved:
  assumes link: "link_doc code w = Some d"
      and ok: "console (snd (recordClick rt now code data w)) = console w"
  shows "\<exists>cd ips. link_doc code (snd (recordClick rt now code data w)) = Some (saved_doc rt cd ips d)"
proof -
  obtain r0 w0 where t: "recordClick_try rt now code data w = (r0, w0)"
    by (cases "recordClick_try rt now code data w") auto
  obtain r w' where rc: "recordClick rt now code data w = (r, w')"
    by (cases "recordClick rt now code data w") auto
  have c0: "console w0 = console w" by (rule recordClick_try_console[OF link t])
  note K = recordClick_console[OF rc t]
  have w': "snd (recordClick rt now code data w) = w'" using rc by simp
  have r0: "r0 = Inr ()"
  proof (cases r0)
    case (Inl e)
    then have "console w' = console w @ [e]" using K c0 by simp
    then show ?thesis using ok w' by simp
  next
    case (Inr u)
    then show ?thesis by simp
  qed
  have t': "recordClick_try rt now code data w = (Inr (), w0)" using t r0 by simp
  from recordClick_try_Inr[OF link t']
  obtain ev where "\<exists>cd. events w0 = events w @ [ev] \<and> ev_shortCode ev = code \<and>
                 ev_timestamp ev = now \<and> cd_timestamp cd = now \<and>
                 ev_anonymizedIp ev = masked_address data \<and>
                 urls w0 = replace_doc (saved_doc rt cd
                   (remdups (map ev_anonymizedIp (link_events code w @ [ev]))) d) (urls w)" ..
  then obtain cd where E: "events w0 = events w @ [ev] \<and> ev_shortCode ev = code \<and>
                 ev_timestamp ev = now \<and> cd_timestamp cd = now \<and>
                 ev_anonymizedIp ev = masked_address data \<and>
                 urls w0 = replace_doc (saved_doc rt cd
                   (remdups (map ev_anonymizedIp (link_events code w @ [ev]))) d) (urls w)" ..
  note E6 = E[THEN conjunct2, THEN conjunct2, THEN conjunct2, THEN conjunct2, THEN conjunct2]
  define ips where "ips = remdups (map ev_anonymizedIp (link_events code w @ [ev]))"
  have f: "find (\<lambda>x. shortCode x = code) (urls w) = Some d" using link by (simp add: link_doc_def)
  have sc: "shortCode (saved_doc rt cd ips d) = code"
    using find_shortCode[OF f] by (simp add: saved_doc_fields)
  have u': "urls w' = replace_doc (saved_doc rt cd ips d) (urls w)" using K E6 by (simp add: ips_def)
  have l': "link_doc code w' = Some (saved_doc rt cd ips d)"
    unfolding link_doc_def u' by (rule find_replace_doc[OF f sc])
  show ?thesis unfolding w' using l' by blast
qed

lemma distinct_visitors_le: "distinct_visitors code w \<le> length (link_events code w)"
  unfolding distinct_visitors_def
  by (metis length_map length_remdups_leq)

lemma recordClick_success_invariant:
  assumes link: "link_doc code w = Some d"
      and ok: "console (snd (recordClick rt now code data w)) = console w"
  shows "\<exists>d'. link_doc code (snd (recordClick rt now code data w)) = Some d' \<and>
           length (topReferrers d') \<le> 10 \<and>
           sorted_wrt (\<lambda>a b. ref_count b \<le> ref_count a) (topReferrers d') \<and>
           length (clicksByDay d') \<le> 30 \<and>
           sorted_wrt (\<lambda>a b. date b \<le> date a) (clicksByDay d') \<and>
           (length (link_events code w) \<le> totalClicks d \<longrightarrow>
              uniqueVisitors d' \<le> totalClicks d' \<and>
              length (link_events code (snd (recordClick rt now code data w))) \<le> totalClicks d')"
proof -
  define w' where "w' = snd (recordClick rt now code data w)"
  from recordClick_success_saved[OF link ok]
  obtain cd ips where L: "link_doc code w' = Some (saved_doc rt cd ips d)"
    unfolding w'_def by blast
  from recordClick_success[OF link ok]
  obtain d1 where "\<exists>ev. link_doc code w' = Some d1 \<and>
           totalClicks d1 = totalClicks d + 1 \<and>
           uniqueVisitors d1 = distinct_visitors code w' \<and>
           lastClickAt d1 = Some now \<and>
           events w' = events w @ [ev] \<and>
           ev_shortCode ev = code \<and> ev_timestamp ev = now \<and>
           ev_anonymizedIp ev = masked_address data"
    unfolding w'_def ..
  then obtain ev where S: "link_doc code w' = Some d1 \<and>
           totalClicks d1 = totalClicks d + 1 \<and>
           uniqueVisitors d1 = distinct_visitors code w' \<and>
           lastClickAt d1 = Some now \<and>
           events w' = events w @ [ev] \<and>
           ev_shortCode ev = code \<and> ev_timestamp ev = now \<and>
           ev_anonymizedIp ev = masked_address data" ..
  note S1 = S[THEN conjunct1]
  note S2 = S[THEN conjunct2, THEN conjunct1]
  note S3 = S[THEN conjunct2, THEN conjunct2, THEN conjunct1]
  note S5 = S[THEN conjunct2, THEN conjunct2, THEN conjunct2, THEN conjunct2, THEN conjunct1]
  note S6 = S[THEN conjunct2, THEN conjunct2, THEN conjunct2, THEN conjunct2, THEN conjunct2,
              THEN conjunct1]
  have d1: "d1 = saved_doc rt cd ips d" using L S1 by simp
  have le: "length (link_events code w') = length (link_events code w) + 1"
    using S5 S6 by (simp add: link_events_def)
  have inv: "uniqueVisitors d1 \<le> totalClicks d1 \<and> length (link_events code w') \<le> totalClicks d1"
    if "length (link_events code w) \<le> totalClicks d"
    using that S2 S3 le distinct_visitors_le[of code w'] by simp
  note lists = saved_doc_lists[of rt cd ips d, folded d1]
  show ?thesis
    unfolding w'_def[symmetric]
    apply (rule exI[of _ d1])
    apply (intro conjI impI)
         apply (rule S1)
        apply (rule lists[THEN conjunct1])
       apply (rule lists[THEN conjunct2, THEN conjunct1])
      apply (rule lists[THEN conjunct2, THEN conjunct2, THEN conjunct1])
      apply (rule lists[THEN conjunct2, THEN conjunct2, THEN conjunct2])
     apply (erule inv[THEN conjunct1])
    apply (erule inv[THEN conjunct2])
    done
qed

text \<open>
  Claim C5. Aggregate invariant: \<open>uniqueVisitors \<le> totalClicks\<close> is not preserved. The
  claim has every successful \<open>recordClick\<close> leave \<open>uniqueVisitors \<le> totalClicks\<close>, at most
  10 top referrers in non-increasing order of count and at most 30 days in descending
  order of date; the two list properties hold (\<open>recordClick_success_invariant\<close> above), and
  so does the inequality as long as the link has no more events than \<open>totalClicks\<close>. Deleting
  a link leaves its events behind, so after the link \<open>abc\<close>, clicked from two distinct masked
  addresses, is deleted and created again, one successful click from a third address
  gives \<open>totalClicks = 1\<close> and \<open>uniqueVisitors = 3\<close>.
\<close>

theorem uniqueVisitors_exceeds_totalClicks_after_recreate:
  "console (snd (recordClick utc_runtime 1700000600000 ''abc'' (click_from ''172.16.0.1'')
                   world_recreated)) = [] \<and>
   map totalClicks (urls (snd (recordClick utc_runtime 1700000600000 ''abc''
                   (click_from ''172.16.0.1'') world_recreated))) = [1] \<and>
   map uniqueVisitors (urls (snd (recordClick utc_runtime 1700000600000 ''abc''
                   (click_from ''172.16.0.1'') world_recreated))) = [3]"
  by code_simp

lemma getPopularUrls_active_sorted_limited:
  assumes "succeed 1 w" "0 < n"
  shows "\<exists>xs. fst (getPopularUrls (Some n) w) = Inr xs \<and>
           length xs \<le> nat n \<and>
           sorted_wrt (\<lambda>a b. pu_totalClicks b \<le> pu_totalClicks a) xs \<and>
           (\<forall>x\<in>set xs. \<exists>d\<in>set (urls w). isActive d \<and> pu_shortCode x = shortCode d \<and>
                            pu_totalClicks x = totalClicks d)"
proof -
  define srt where "srt = sort_key (\<lambda>d. - int (totalClicks d)) (filter isActive (urls w))"
  define conv where "conv = (\<lambda>url :: url_doc. \<lparr> pu_shortCode = shortCode url,
                               pu_originalUrl = originalUrl url,
                               pu_clicks = clicks url,
                               pu_totalClicks = totalClicks url,
                               pu_uniqueVisitors = uniqueVisitors url,
                               pu_createdAt = createdAt url \<rparr>)"
  have r: "fst (getPopularUrls (Some n) w) = Inr (map conv (take (nat n) srt))"
    using getPopularUrls_ok[OF assms(1), of "Some n"] assms(2)
    by (simp add: store_limit_def srt_def conv_def)
  have "sorted_wrt (\<lambda>a b. int (totalClicks b) \<le> int (totalClicks a)) srt"
    unfolding srt_def by (rule sort_key_desc)
  then have "sorted_wrt (\<lambda>a b. totalClicks b \<le> totalClicks a) (take (nat n) srt)"
    by (intro sorted_wrt_take) simp
  then have so: "sorted_wrt (\<lambda>a b. pu_totalClicks b \<le> pu_totalClicks a) (map conv (take (nat n) srt))"
    by (simp add: sorted_wrt_map conv_def)
  have mem: "\<forall>x\<in>set (map conv (take (nat n) srt)).
               \<exists>d\<in>set (urls w). isActive d \<and> pu_shortCode x = shortCode d \<and>
                            pu_totalClicks x = totalClicks d"
  proof
    fix x assume "x \<in> set (map conv (take (nat n) srt))"
    then obtain d where d: "d \<in> set (take (nat n) srt)" "x = conv d" by auto
    then have "d \<in> set srt" by (meson in_set_takeD)
    then have "d \<in> set (urls w) \<and> isActive d" by (simp add: srt_def)
    then show "\<exists>d\<in>set (urls w). isActive d \<and> pu_shortCode x = shortCode d \<and>
                            pu_totalClicks x = totalClicks d"
      using d(2) by (auto simp: conv_def)
  qed
  have len: "length (map conv (take (nat n) srt)) \<le> nat n" by simp
  show ?thesis using r len so mem by blast
qed

end
